theory Spec2Isabelle
  imports Main "HOL-Library.Sublist"
begin

section \<open>Strings and character classes\<close>

text \<open>
  A Python \<open>str\<close> is a sequence of code points. The model reads an Isabelle \<open>char\<close> as
  the code point of the same number, so a \<open>string\<close> stands for a Python string whose code
  points are all below 256. Every character the patterns of \<open>parse_pdf.py\<close> and
  \<open>utils.py\<close> name is in this range; the accented letters are written as Python writes
  them: \<open>\xe7\<close> (c with cedilla) is \<open>CHR 0xE7\<close>, \<open>\xe3\<close> (a with tilde) is
  \<open>CHR 0xE3\<close>, \<open>\xf5\<close> (o with tilde) is \<open>CHR 0xF5\<close>, \<open>\xf3\<close> (o with acute) is
  \<open>CHR 0xF3\<close>, and the non-breaking space \<open>\xa0\<close> is \<open>CHR 0xA0\<close>. The classes below are
  those of Python 3 on this range.
\<close>

definition cp :: "char \<Rightarrow> nat" where
  "cp c = of_char c"

text \<open>\<open>str.isspace\<close>, which is also the class \<open>\s\<close> of \<open>re\<close> on \<open>str\<close> patterns.\<close>

definition is_space :: "char \<Rightarrow> bool" where
  "is_space c \<longleftrightarrow> (9 \<le> cp c \<and> cp c \<le> 13) \<or> (28 \<le> cp c \<and> cp c \<le> 32)
                    \<or> cp c = 133 \<or> cp c = 160"

text \<open>The class \<open>\d\<close>.\<close>

definition is_digit :: "char \<Rightarrow> bool" where
  "is_digit c \<longleftrightarrow> 48 \<le> cp c \<and> cp c \<le> 57"

definition is_upper_az :: "char \<Rightarrow> bool" where
  "is_upper_az c \<longleftrightarrow> 65 \<le> cp c \<and> cp c \<le> 90"

definition is_lower_az :: "char \<Rightarrow> bool" where
  "is_lower_az c \<longleftrightarrow> 97 \<le> cp c \<and> cp c \<le> 122"

text \<open>The class \<open>\w\<close>: \<open>str.isalnum\<close> or the underscore.\<close>

definition is_word :: "char \<Rightarrow> bool" where
  "is_word c \<longleftrightarrow> is_digit c \<or> is_upper_az c \<or> is_lower_az c \<or> cp c = 95
      \<or> cp c = 170 \<or> cp c = 178 \<or> cp c = 179 \<or> cp c = 181 \<or> cp c = 185 \<or> cp c = 186
      \<or> (188 \<le> cp c \<and> cp c \<le> 190)
      \<or> (192 \<le> cp c \<and> cp c \<le> 214) \<or> (216 \<le> cp c \<and> cp c \<le> 246) \<or> 248 \<le> cp c"

text \<open>\<open>str.lower\<close> on one character.\<close>

definition lower_char :: "char \<Rightarrow> char" where
  "lower_char c = (if is_upper_az c \<or> (192 \<le> cp c \<and> cp c \<le> 222 \<and> cp c \<noteq> 215)
                   then char_of (cp c + 32) else c)"

definition lower :: "string \<Rightarrow> string" where
  "lower s = map lower_char s"

text \<open>The line boundaries of \<open>str.splitlines\<close>.\<close>

definition is_linebreak :: "char \<Rightarrow> bool" where
  "is_linebreak c \<longleftrightarrow> (10 \<le> cp c \<and> cp c \<le> 13) \<or> (28 \<le> cp c \<and> cp c \<le> 30) \<or> cp c = 133"

definition strip :: "string \<Rightarrow> string" where
  "strip s = rev (dropWhile is_space (rev (dropWhile is_space s)))"

text \<open>\<open>needle in haystack\<close> on strings.\<close>

fun str_in :: "string \<Rightarrow> string \<Rightarrow> bool" where
  "str_in n [] = (n = [])"
| "str_in n (h # hs) = (prefix n (h # hs) \<or> str_in n hs)"

text \<open>\<open>sep.join(parts)\<close>.\<close>

fun join :: "string \<Rightarrow> string list \<Rightarrow> string" where
  "join sep [] = []"
| "join sep [x] = x"
| "join sep (x # y # ys) = x @ sep @ join sep (y # ys)"

text \<open>\<open>str.replace(old, new)\<close> for a one-character \<open>old\<close>.\<close>

definition replace_char :: "char \<Rightarrow> string \<Rightarrow> string \<Rightarrow> string" where
  "replace_char old new s = concat (map (\<lambda>c. if c = old then new else [c]) s)"

text \<open>
  \<open>str.splitlines()\<close>: the text is cut at every line boundary, \<open>\r\n\<close> counts as one
  boundary, and a boundary at the very end opens no further line.
\<close>

fun splitlines_acc :: "string \<Rightarrow> string \<Rightarrow> string list" where
  "splitlines_acc cur [] = (if cur = [] then [] else [cur])"
| "splitlines_acc cur (x # xs) =
     (if x = CHR 13 \<and> (case xs of [] \<Rightarrow> False | y # _ \<Rightarrow> y = CHR 10)
      then cur # splitlines_acc [] (tl xs)
      else if is_linebreak x then cur # splitlines_acc [] xs
      else splitlines_acc (cur @ [x]) xs)"

definition splitlines :: "string \<Rightarrow> string list" where
  "splitlines s = splitlines_acc [] s"

section \<open>Regular expressions as \<open>re\<close> runs them\<close>

text \<open>
  The patterns of the source are kept as syntax trees and run by a backtracking matcher
  that returns every way to match, in the order \<open>re\<close> tries them: the head of the list is
  the match \<open>re\<close> reports. A matcher state is the character before the current position
  (\<open>None\<close> at the start of the string), the rest of the string, and the groups captured
  so far. Repetition is greedy and, as in every pattern of the source, over one character
  class.
\<close>

type_synonym groups = "(nat \<times> string) list"
type_synonym mstate = "char option \<times> string \<times> groups"

datatype rx =
    Chr "char \<Rightarrow> bool"
  | Rep "char \<Rightarrow> bool" nat "nat option"
  | Cat rx rx
  | Alt rx rx
  | Grp nat rx
  | Bos
  | Eos
  | Wb

fun rep :: "(char \<Rightarrow> bool) \<Rightarrow> nat \<Rightarrow> nat option \<Rightarrow> char option \<Rightarrow> string
             \<Rightarrow> (char option \<times> string) list" where
  "rep P lo hi prev [] = (if lo = 0 then [(prev, [])] else [])"
| "rep P lo hi prev (x # xs) =
     (if P x \<and> hi \<noteq> Some 0
      then rep P (lo - 1) (map_option (\<lambda>h. h - 1) hi) (Some x) xs else [])
     @ (if lo = 0 then [(prev, x # xs)] else [])"

definition word_before :: "char option \<Rightarrow> bool" where
  "word_before prev = (case prev of None \<Rightarrow> False | Some c \<Rightarrow> is_word c)"

definition word_after :: "string \<Rightarrow> bool" where
  "word_after rest = (case rest of [] \<Rightarrow> False | c # _ \<Rightarrow> is_word c)"

fun ms :: "rx \<Rightarrow> mstate \<Rightarrow> mstate list" where
  "ms (Chr P) (prev, rest, g) =
     (case rest of [] \<Rightarrow> [] | x # xs \<Rightarrow> if P x then [(Some x, xs, g)] else [])"
| "ms (Rep P lo hi) (prev, rest, g) = map (\<lambda>(p, r). (p, r, g)) (rep P lo hi prev rest)"
| "ms (Cat a b) st = concat (map (ms b) (ms a st))"
| "ms (Alt a b) st = ms a st @ ms b st"
| "ms (Grp n a) (prev, rest, g) =
     map (\<lambda>(p, r, g'). (p, r, (n, take (length rest - length r) rest) # g'))
         (ms a (prev, rest, g))"
| "ms Bos (prev, rest, g) = (if prev = None then [(prev, rest, g)] else [])"
| "ms Eos (prev, rest, g) = (if rest = [] \<or> rest = [CHR 10] then [(prev, rest, g)] else [])"
| "ms Wb (prev, rest, g) =
     (if word_before prev \<noteq> word_after rest then [(prev, rest, g)] else [])"

text \<open>Pattern building blocks.\<close>

definition lit :: "char \<Rightarrow> rx" where
  "lit c = Chr (\<lambda>x. x = c)"

text \<open>A literal under \<open>re.I\<close>.\<close>

definition liti :: "char \<Rightarrow> rx" where
  "liti c = Chr (\<lambda>x. lower_char x = lower_char c)"

fun cats :: "rx list \<Rightarrow> rx" where
  "cats [] = Rep (\<lambda>_. False) 0 (Some 0)"
| "cats [r] = r"
| "cats (r # rs) = Cat r (cats rs)"

definition stri :: "string \<Rightarrow> rx" where
  "stri s = cats (map liti s)"

definition star :: "(char \<Rightarrow> bool) \<Rightarrow> rx" where
  "star P = Rep P 0 None"

definition plus :: "(char \<Rightarrow> bool) \<Rightarrow> rx" where
  "plus P = Rep P 1 None"

text \<open>The first match at the current position, if it is not empty.\<close>

definition match_here :: "rx \<Rightarrow> char option \<Rightarrow> string \<Rightarrow> mstate option" where
  "match_here r prev rest =
     (case ms r (prev, rest, []) of [] \<Rightarrow> None
      | (p, rest', g) # _ \<Rightarrow> if length rest' < length rest then Some (p, rest', g) else None)"

text \<open>
  \<open>pattern.match(s)\<close>: the groups and the text after the match, at position 0 only.
\<close>

definition re_match :: "rx \<Rightarrow> string \<Rightarrow> (groups \<times> string) option" where
  "re_match r s = (case ms r (None, s, []) of [] \<Rightarrow> None | (p, rest, g) # _ \<Rightarrow> Some (g, rest))"

text \<open>
  \<open>pattern.search(s)\<close>: the leftmost position with a match; the result is the groups and
  the text after the match (\<open>s[m.end():]\<close>).
\<close>

fun search_from :: "rx \<Rightarrow> char option \<Rightarrow> string \<Rightarrow> (groups \<times> string) option" where
  "search_from r prev [] =
     (case ms r (prev, [], []) of [] \<Rightarrow> None | (p, rest, g) # _ \<Rightarrow> Some (g, rest))"
| "search_from r prev (x # xs) =
     (case ms r (prev, x # xs, []) of [] \<Rightarrow> search_from r (Some x) xs
      | (p, rest, g) # _ \<Rightarrow> Some (g, rest))"

definition re_search :: "rx \<Rightarrow> string \<Rightarrow> (groups \<times> string) option" where
  "re_search r s = search_from r None s"

text \<open>\<open>m.group(n)\<close> for a group that took part in the match.\<close>

definition group :: "groups \<Rightarrow> nat \<Rightarrow> string" where
  "group g n = (case map_of g n of None \<Rightarrow> [] | Some t \<Rightarrow> t)"

text \<open>
  \<open>re.sub\<close>, \<open>re.split\<close> and \<open>re.findall\<close> walk the string from left to right over the
  matches, which do not overlap. None of the patterns the source gives them can match the
  empty string, so a position whose first match is empty is passed over like one without
  a match.
\<close>

function sub_loop :: "rx \<Rightarrow> string \<Rightarrow> char option \<Rightarrow> string \<Rightarrow> string" where
  "sub_loop r repl prev rest =
     (case match_here r prev rest of
        Some (p, rest', g) \<Rightarrow> repl @ sub_loop r repl p rest'
      | None \<Rightarrow> (case rest of [] \<Rightarrow> [] | x # xs \<Rightarrow> x # sub_loop r repl (Some x) xs))"
  by pat_completeness auto
termination
  by (relation "measure (\<lambda>(r, repl, prev, rest). length rest)")
     (auto simp: match_here_def split: list.splits if_splits)

declare sub_loop.simps [simp del]

definition re_sub :: "rx \<Rightarrow> string \<Rightarrow> string \<Rightarrow> string" where
  "re_sub r repl s = sub_loop r repl None s"

function findall_loop :: "rx \<Rightarrow> char option \<Rightarrow> string \<Rightarrow> string list" where
  "findall_loop r prev rest =
     (case match_here r prev rest of
        Some (p, rest', g) \<Rightarrow> group g 1 # findall_loop r p rest'
      | None \<Rightarrow> (case rest of [] \<Rightarrow> [] | x # xs \<Rightarrow> findall_loop r (Some x) xs))"
  by pat_completeness auto
termination
  by (relation "measure (\<lambda>(r, prev, rest). length rest)")
     (auto simp: match_here_def split: list.splits if_splits)

declare findall_loop.simps [simp del]

text \<open>\<open>pattern.findall(s)\<close> for a pattern with one group: the texts of group 1.\<close>

definition re_findall :: "rx \<Rightarrow> string \<Rightarrow> string list" where
  "re_findall r s = findall_loop r None s"

text \<open>
  \<open>pattern.split(s, maxsplit)\<close> for a pattern with \<open>ng\<close> groups: the pieces between the
  matches and, after each piece but the last, the text of every group of the match that
  ended it (\<open>None\<close> for a group that took no part). \<open>left\<close> is the number of splits still
  allowed, \<open>None\<close> for no limit (\<open>maxsplit=0\<close>).
\<close>

function split_loop :: "rx \<Rightarrow> nat \<Rightarrow> nat option \<Rightarrow> string \<Rightarrow> char option \<Rightarrow> string
                         \<Rightarrow> string option list" where
  "split_loop r ng left cur prev rest =
     (if left = Some 0 then [Some (cur @ rest)]
      else (case match_here r prev rest of
              Some (p, rest', g) \<Rightarrow>
                Some cur # map (map_of g) [1..<Suc ng]
                  @ split_loop r ng (map_option (\<lambda>k. k - 1) left) [] p rest'
            | None \<Rightarrow> (case rest of [] \<Rightarrow> [Some cur]
                       | x # xs \<Rightarrow> split_loop r ng left (cur @ [x]) (Some x) xs)))"
  by pat_completeness auto
termination
  by (relation "measure (\<lambda>(r, ng, left, cur, prev, rest). length rest)")
     (auto simp: match_here_def split: list.splits if_splits)

declare split_loop.simps [simp del]

definition re_split :: "rx \<Rightarrow> nat \<Rightarrow> nat \<Rightarrow> string \<Rightarrow> string option list" where
  "re_split r ng maxsplit s =
     split_loop r ng (if maxsplit = 0 then None else Some maxsplit) [] None s"

section \<open>\<open>utils.clean_space\<close>\<close>

definition nbsp :: char where
  "nbsp = CHR 0xA0"

definition is_blank :: "char \<Rightarrow> bool" where
  "is_blank c \<longleftrightarrow> c = CHR '' '' \<or> c = CHR 9"

definition is_nl :: "char \<Rightarrow> bool" where
  "is_nl c \<longleftrightarrow> c = CHR 10"

text \<open>\<open>[ \t]+\<close>\<close>
definition BLANKS_RE :: rx where
  "BLANKS_RE = plus is_blank"

text \<open>\<open>\s*\n\s*\<close>\<close>
definition NL_PAD_RE :: rx where
  "NL_PAD_RE = cats [star is_space, lit (CHR 10), star is_space]"

text \<open>\<open>\n{3,}\<close>\<close>
definition NL3_RE :: rx where
  "NL3_RE = Rep is_nl 3 None"

text \<open>
  \<open>clean_space(s)\<close>. Every caller passes a \<open>str\<close> (\<open>cell or ""\<close>); the guard
  \<open>if not s\<close> is the empty string's branch.
\<close>

definition clean_space :: "string \<Rightarrow> string" where
  "clean_space s =
     (if s = [] then []
      else strip (re_sub NL3_RE [CHR 10, CHR 10]
                   (re_sub NL_PAD_RE [CHR 10]
                     (re_sub BLANKS_RE '' ''
                       (replace_char nbsp '' '' s)))))"

section \<open>The patterns of \<open>parse_pdf.py\<close>\<close>

definition c_cedil :: char where "c_cedil = CHR 0xE7"
definition a_tilde :: char where "a_tilde = CHR 0xE3"
definition o_tilde :: char where "o_tilde = CHR 0xF5"
definition o_acute :: char where "o_acute = CHR 0xF3"

definition is_az :: "char \<Rightarrow> bool" where
  "is_az c \<longleftrightarrow> is_upper_az c \<or> is_lower_az c"

text \<open>The dot of a pattern without \<open>re.S\<close>.\<close>

definition not_nl :: "char \<Rightarrow> bool" where
  "not_nl c \<longleftrightarrow> c \<noteq> CHR 10"

definition digits :: "nat \<Rightarrow> rx" where
  "digits n = Rep is_digit n (Some n)"

text \<open>\<open>Controle\s+de\s+Vers(\xf5es|oes)\<close>, \<open>re.I\<close>\<close>
definition CONTROL_VER_RE :: rx where
  "CONTROL_VER_RE =
     cats [stri ''Controle'', plus is_space, stri ''de'', plus is_space, stri ''Vers'',
           Grp 1 (Alt (stri (o_tilde # ''es'')) (stri ''oes''))]"

text \<open>\<open>Hist(\xf3|o)rico\s+de\s+Altera(\xe7|c)(\xf5es|oes)\s*/\s*Cronograma\<close>, \<open>re.I\<close>\<close>
definition HIST_CRONO_RE :: rx where
  "HIST_CRONO_RE =
     cats [stri ''Hist'', Grp 1 (Alt (liti o_acute) (liti (CHR ''o''))), stri ''rico'',
           plus is_space, stri ''de'', plus is_space, stri ''Altera'',
           Grp 2 (Alt (liti c_cedil) (liti (CHR ''c''))),
           Grp 3 (Alt (stri (o_tilde # ''es'')) (stri ''oes'')),
           star is_space, lit (CHR ''/''), star is_space, stri ''Cronograma'']"

text \<open>
  \<open>^\s*(\d+\.\d+)\s+(\d{2}/\d{4}|[A-Za-z]+/\d{4}|Mar\xe7o/\d{4}|Junho/\d{4}|Julho/\d{4})\s+.*\<close>,
  \<open>re.I\<close>
\<close>
definition VERSAO_LINHA_RE :: rx where
  "VERSAO_LINHA_RE =
     cats [Bos, star is_space,
           Grp 1 (cats [plus is_digit, lit (CHR ''.''), plus is_digit]),
           plus is_space,
           Grp 2 (Alt (cats [digits 2, lit (CHR ''/''), digits 4])
                 (Alt (cats [plus is_az, lit (CHR ''/''), digits 4])
                 (Alt (cats [stri (''Mar'' @ [c_cedil] @ ''o''), lit (CHR ''/''), digits 4])
                 (Alt (cats [stri ''Junho'', lit (CHR ''/''), digits 4])
                      (cats [stri ''Julho'', lit (CHR ''/''), digits 4]))))),
           plus is_space, star not_nl]"

text \<open>\<open>^\s*7\.\s*Regras\s+de\s+Valida(\xe7|c)(\xe3o|ao)\s*\<close>, \<open>re.I\<close>\<close>
definition RV_SECTION_RE :: rx where
  "RV_SECTION_RE =
     cats [Bos, star is_space, lit (CHR ''7''), lit (CHR ''.''), star is_space,
           stri ''Regras'', plus is_space, stri ''de'', plus is_space, stri ''Valida'',
           Grp 1 (Alt (liti c_cedil) (liti (CHR ''c''))),
           Grp 2 (Alt (stri (a_tilde # ''o'')) (stri ''ao'')),
           star is_space]"

text \<open>\<open>\b(\d{2}/\d{2}/\d{4})\b\<close>\<close>
definition DATE_DDMMYYYY :: rx where
  "DATE_DDMMYYYY =
     cats [Wb, Grp 1 (cats [digits 2, lit (CHR ''/''), digits 2, lit (CHR ''/''), digits 4]), Wb]"

text \<open>\<open>\n{2,}\<close>\<close>
definition PARA_RE :: rx where
  "PARA_RE = Rep is_nl 2 None"

text \<open>\<open>\bObrig\.\b\<close>, \<open>re.I\<close>\<close>
definition OBRIG_RE :: rx where
  "OBRIG_RE = cats [Wb, stri ''Obrig'', lit (CHR ''.''), Wb]"

text \<open>\<open>\bFacult\.\b\<close>, \<open>re.I\<close>\<close>
definition FACULT_RE :: rx where
  "FACULT_RE = cats [Wb, stri ''Facult'', lit (CHR ''.''), Wb]"

text \<open>\<open>\b(\d{3,4})\b\<close>\<close>
definition MSG_RE :: rx where
  "MSG_RE = cats [Wb, Grp 1 (Rep is_digit 3 (Some 4)), Wb]"

text \<open>\<open>\b([A-Z]{1,3}\d{1,3}[A-Za-z\-]*\d*)\b\<close>\<close>
definition RV_RE :: rx where
  "RV_RE =
     cats [Wb, Grp 1 (cats [Rep is_upper_az 1 (Some 3), Rep is_digit 1 (Some 3),
                            star (\<lambda>c. is_az c \<or> c = CHR ''-''), star is_digit]), Wb]"

text \<open>\<open>^([A-Z]{1,3}\d{1,3})\<close>\<close>
definition CAMPO_RE :: rx where
  "CAMPO_RE = cats [Bos, Grp 1 (cats [Rep is_upper_az 1 (Some 3), Rep is_digit 1 (Some 3)])]"

text \<open>\<open>Rejei(\xe7|c)\xe3o:\s*(.*)$\<close>, \<open>re.I\<close>\<close>
definition REJ_RE :: rx where
  "REJ_RE =
     cats [stri ''Rejei'', Grp 1 (Alt (liti c_cedil) (liti (CHR ''c''))),
           stri (a_tilde # ''o''), lit (CHR '':''), star is_space, Grp 2 (star not_nl), Eos]"

text \<open>\<open>^(Obrig\.|Facult\.)\s*\<close>, \<open>re.I\<close>\<close>
definition PREFIX_RE :: rx where
  "PREFIX_RE =
     cats [Bos, Grp 1 (Alt (cats [stri ''Obrig'', lit (CHR ''.'')])
                           (cats [stri ''Facult'', lit (CHR ''.'')])),
           star is_space]"

section \<open>The data of \<open>parse_pdf.py\<close>\<close>

text \<open>
  A table of \<open>pdfplumber\<close> is a list of rows, a row a list of cells, a cell a string or
  \<open>None\<close>. A rule record is the \<open>dict\<close> the parsers build, kept as an association list
  in the order of its keys.
\<close>

type_synonym cell = "string option"
type_synonym row = "cell list"
type_synonym table = "row list"
type_synonym rule = "(string \<times> string) list"

datatype error = IndexError | PdfError

record NTRow =
  nt_titulo :: string
  nt_versao :: "string option"
  publicada_em :: "string option"
  implantacao_homolog :: "string option"
  implantacao_producao :: "string option"
  grupo :: "string option"
  campo :: "string option"
  regra :: "string option"
  aplic :: "string option"
  msg :: "string option"
  descricao :: "string option"

text \<open>
  What the two PDF libraries give for one file: the text of every page from \<open>pypdf\<close>
  (\<open>None\<close> for a page without text, \<open>None\<close> for the file when the reader raises), and for
  every page the tables \<open>_iter_tables\<close> collects from \<open>pdfplumber\<close> (\<open>None\<close> for the file
  when it cannot be opened).
\<close>

record pdf =
  pypdf_pages :: "string option list option"
  plumber_pages :: "table list list option"

text \<open>\<open>x or ""\<close>\<close>
definition or_empty :: "string option \<Rightarrow> string" where
  "or_empty c = (case c of None \<Rightarrow> [] | Some s \<Rightarrow> s)"

text \<open>\<open>d.get(k, "")\<close>; also \<open>d[k]\<close> for a key the \<open>dict\<close> was built with.\<close>
definition dict_get :: "rule \<Rightarrow> string \<Rightarrow> string" where
  "dict_get d k = (case map_of d k of None \<Rightarrow> [] | Some v \<Rightarrow> v)"

definition ebind :: "error + 'a \<Rightarrow> ('a \<Rightarrow> error + 'b) \<Rightarrow> error + 'b" where
  "ebind x f = (case x of Inl e \<Rightarrow> Inl e | Inr v \<Rightarrow> f v)"

definition pdf_text :: "pdf \<Rightarrow> string" where
  "pdf_text p = (case pypdf_pages p of None \<Rightarrow> []
                 | Some parts \<Rightarrow> join [CHR 10] (map or_empty parts))"

section \<open>The rule-table parser\<close>

definition guess_has_rv_header :: "string list \<Rightarrow> bool" where
  "guess_has_rv_header r =
     (let head = join '' | '' (map (\<lambda>c. lower c) r)
      in (str_in ''aplic'' head \<and> str_in ''msg'' head)
         \<or> (str_in ''descri'' head \<and> str_in ''regra'' head))"

text \<open>The loop over \<open>tbl[:3]\<close> that looks for the header, with its \<open>break\<close>.\<close>

fun find_header :: "row list \<Rightarrow> string list option" where
  "find_header [] = None"
| "find_header (r # rs) =
     (if guess_has_rv_header (map or_empty r)
      then Some (map (\<lambda>c. clean_space (or_empty c)) r)
      else find_header rs)"

fun find_idx_from :: "string list \<Rightarrow> nat \<Rightarrow> string list \<Rightarrow> nat option" where
  "find_idx_from names i [] = None"
| "find_idx_from names i (h # hs) =
     (if \<exists>n \<in> set names. str_in n (lower h) then Some i
      else find_idx_from names (Suc i) hs)"

definition find_idx :: "string list \<Rightarrow> string list \<Rightarrow> nat option" where
  "find_idx header names = find_idx_from (map lower names) 0 header"

definition idx_regra :: "string list \<Rightarrow> nat option" where
  "idx_regra header = find_idx header [''regra'', ''rv'', ''id'']"

definition idx_campo :: "string list \<Rightarrow> nat option" where
  "idx_campo header = find_idx header [''campo'', ''id'']"

definition idx_aplic :: "string list \<Rightarrow> nat option" where
  "idx_aplic header = find_idx header [''aplic'']"

definition idx_msg :: "string list \<Rightarrow> nat option" where
  "idx_msg header = find_idx header [''msg'', ''cstat'']"

definition idx_desc :: "string list \<Rightarrow> nat option" where
  "idx_desc header =
     find_idx header [''descr'', ''descri'' @ [c_cedil, a_tilde] @ ''o'', ''descricao'', ''observ'']"

text \<open>\<open>cells[idx] if idx is not None else ""\<close>, with the \<open>IndexError\<close> of the subscript.\<close>

definition cell_at :: "string list \<Rightarrow> nat option \<Rightarrow> error + string" where
  "cell_at cells idx =
     (case idx of None \<Rightarrow> Inr []
      | Some i \<Rightarrow> if i < length cells then Inr (cells ! i) else Inl IndexError)"

definition make_row :: "string list \<Rightarrow> row \<Rightarrow> error + rule" where
  "make_row header r =
     (let cells = map (\<lambda>c. clean_space (or_empty c)) r @ replicate 6 []
      in ebind (cell_at cells (idx_campo header)) (\<lambda>v_campo.
         ebind (cell_at cells (idx_regra header)) (\<lambda>v_regra.
         ebind (cell_at cells (idx_aplic header)) (\<lambda>v_aplic.
         ebind (cell_at cells (idx_msg header)) (\<lambda>v_msg.
         ebind (cell_at cells (idx_desc header)) (\<lambda>v_desc.
           Inr [(''campo'', v_campo), (''regra'', v_regra), (''aplic'', v_aplic),
                (''msg'', v_msg), (''descricao'', v_desc)]))))))"

text \<open>\<open>any(row.values()) and len(clean_space(row["descricao"])) >= 3\<close>\<close>

definition keep_row :: "rule \<Rightarrow> bool" where
  "keep_row r \<longleftrightarrow> (\<exists>v \<in> set (map snd r). v \<noteq> [])
                    \<and> 3 \<le> length (clean_space (dict_get r ''descricao''))"

fun rows_loop :: "string list \<Rightarrow> rule list \<Rightarrow> row list \<Rightarrow> error + rule list" where
  "rows_loop header out [] = Inr out"
| "rows_loop header out (r # rs) =
     ebind (make_row header r)
       (\<lambda>rw. rows_loop header (if keep_row rw then out @ [rw] else out) rs)"

text \<open>The body of \<open>for tbl in tables\<close>: \<open>out\<close> before the table, \<open>out\<close> after it.\<close>

definition table_step :: "rule list \<Rightarrow> table \<Rightarrow> error + rule list" where
  "table_step out tbl =
     (if tbl = [] \<or> length tbl < 2 then Inr out
      else (case find_header (take 3 tbl) of
              None \<Rightarrow> Inr out
            | Some header \<Rightarrow> if header = [] then Inr out
                             else rows_loop header out (drop 1 tbl)))"

fun tables_loop :: "rule list \<Rightarrow> table list \<Rightarrow> error + rule list" where
  "tables_loop out [] = Inr out"
| "tables_loop out (tbl # tbls) = ebind (table_step out tbl) (\<lambda>out'. tables_loop out' tbls)"

fun pages_loop :: "rule list \<Rightarrow> table list list \<Rightarrow> error + rule list" where
  "pages_loop out [] = Inr out"
| "pages_loop out (tables # pages) =
     ebind (tables_loop out tables) (\<lambda>out'. pages_loop out' pages)"

definition parse_rv_tables :: "pdf \<Rightarrow> error + rule list" where
  "parse_rv_tables p =
     (case plumber_pages p of None \<Rightarrow> Inl PdfError | Some pages \<Rightarrow> pages_loop [] pages)"

section \<open>The rule-text parser\<close>

text \<open>The detectors of the loop body of \<open>_parse_rv_text\<close>, on the cleaned paragraph.\<close>

definition aplic_of :: "string \<Rightarrow> string option" where
  "aplic_of p =
     (if re_search OBRIG_RE p \<noteq> None then Some ''Obrig.''
      else if re_search FACULT_RE p \<noteq> None then Some ''Facult.''
      else None)"

definition msg_of :: "string \<Rightarrow> string" where
  "msg_of p = (case re_search MSG_RE p of None \<Rightarrow> [] | Some (g, _) \<Rightarrow> group g 1)"

definition regra_of :: "string \<Rightarrow> string" where
  "regra_of p = (case re_search RV_RE p of None \<Rightarrow> [] | Some (g, _) \<Rightarrow> group g 1)"

definition campo_of :: "string \<Rightarrow> string" where
  "campo_of rg =
     (if rg \<noteq> [] then (case re_match CAMPO_RE rg of None \<Rightarrow> [] | Some (g, _) \<Rightarrow> group g 1)
      else [])"

definition desc_of :: "string \<Rightarrow> string" where
  "desc_of p = (case re_search REJ_RE p of Some (g, _) \<Rightarrow> group g 2
                | None \<Rightarrow> re_sub PREFIX_RE [] p)"

text \<open>One paragraph: the record it appends to \<open>out\<close>, if any.\<close>

definition para_step :: "string \<Rightarrow> rule option" where
  "para_step p =
     (let a = aplic_of p; m = msg_of p; rg = regra_of p; cm = campo_of rg; desc = desc_of p
      in if desc \<noteq> [] \<and> (a \<noteq> None \<or> m \<noteq> [] \<or> rg \<noteq> [])
         then Some [(''campo'', cm), (''regra'', rg), (''aplic'', or_empty a),
                    (''msg'', m), (''descricao'', desc)]
         else None)"

fun paras_loop :: "rule list \<Rightarrow> string list \<Rightarrow> rule list" where
  "paras_loop out [] = out"
| "paras_loop out (para # paras) =
     (let p = clean_space para
      in if p = [] then paras_loop out paras
         else (case para_step p of None \<Rightarrow> paras_loop out paras
               | Some rw \<Rightarrow> paras_loop (out @ [rw]) paras))"

text \<open>
  \<open>_parse_rv_text\<close>. \<open>RV_SECTION_RE\<close> has two groups and both take part in every match,
  so \<open>split\<close> gives the list \<open>[before, group 1, group 2, after]\<close>.
\<close>

definition parse_rv_text :: "string \<Rightarrow> rule list" where
  "parse_rv_text text =
     (if text = [] then []
      else (let sec = re_split RV_SECTION_RE 2 1 text
            in if length sec < 2 then []
               else paras_loop [] (map or_empty (re_split PARA_RE 0 0 (or_empty (sec ! 1))))))"

section \<open>Version and schedule\<close>

fun candidatas_loop :: "string list \<Rightarrow> string list \<Rightarrow> string list" where
  "candidatas_loop acc [] = acc"
| "candidatas_loop acc (ln # lns) =
     (case re_match VERSAO_LINHA_RE (strip ln) of
        None \<Rightarrow> candidatas_loop acc lns
      | Some (g, _) \<Rightarrow> candidatas_loop (acc @ [group g 1]) lns)"

definition extract_versions_block ::
    "string \<Rightarrow> string option \<times> string option \<times> string option" where
  "extract_versions_block text =
     (let versao =
            (case re_search CONTROL_VER_RE text of None \<Rightarrow> None
             | Some (g, tail) \<Rightarrow>
                 (let candidatas = candidatas_loop [] (take 120 (splitlines tail))
                  in if candidatas \<noteq> [] then Some (candidatas ! (length candidatas - 1))
                     else None));
          dts =
            (case re_search HIST_CRONO_RE text of None \<Rightarrow> (None, None)
             | Some (g, tail) \<Rightarrow>
                 (let trecho = join [CHR 10] (take 250 (splitlines tail));
                      datas = re_findall DATE_DDMMYYYY trecho
                  in if 2 \<le> length datas
                     then (Some (datas ! (length datas - 2)), Some (datas ! (length datas - 1)))
                     else (None, None)))
      in (versao, fst dts, snd dts))"

section \<open>Orchestration\<close>

text \<open>\<open>table_rvs\<close>: what the table path gives, \<open>[]\<close> when it raises.\<close>

definition table_rvs :: "pdf \<Rightarrow> rule list" where
  "table_rvs p = (case parse_rv_tables p of Inl e \<Rightarrow> [] | Inr out \<Rightarrow> out)"

definition text_rvs :: "pdf \<Rightarrow> rule list" where
  "text_rvs p = (if table_rvs p = [] then parse_rv_text (pdf_text p) else [])"

text \<open>\<open>rvs = table_rvs or text_rvs\<close>\<close>

definition rvs :: "pdf \<Rightarrow> rule list" where
  "rvs p = (if table_rvs p \<noteq> [] then table_rvs p else text_rvs p)"

definition extract_rules_from_pdf :: "pdf \<Rightarrow> string \<Rightarrow> string option \<Rightarrow> NTRow list" where
  "extract_rules_from_pdf p titulo publicada =
     (case extract_versions_block (pdf_text p) of (versao, dt_hml, dt_prd) \<Rightarrow>
        if rvs p = []
        then [\<lparr>nt_titulo = titulo, nt_versao = versao, publicada_em = publicada,
               implantacao_homolog = dt_hml, implantacao_producao = dt_prd,
               grupo = None, campo = None, regra = None, aplic = None, msg = None,
               descricao = None\<rparr>]
        else map (\<lambda>rv. \<lparr>nt_titulo = titulo, nt_versao = versao, publicada_em = publicada,
                        implantacao_homolog = dt_hml, implantacao_producao = dt_prd,
                        grupo = None,
                        campo = Some (clean_space (dict_get rv ''campo'')),
                        regra = Some (clean_space (dict_get rv ''regra'')),
                        aplic = Some (clean_space (dict_get rv ''aplic'')),
                        msg = Some (clean_space (dict_get rv ''msg'')),
                        descricao = Some (clean_space (dict_get rv ''descricao''))\<rparr>)
                 (rvs p))"

section \<open>The scans of the version and schedule extractor, as the specification words them\<close>

text \<open>
  The version labels of the lines that have the shape of a version line, in the order of
  the lines. \<open>tail\<close> is the text after the header: its first line is what is left of the
  header's own line, and the lines following the header are the lines after that one. The
  version scan takes the last label among the 120 lines following the first header, the
  schedule scan the last two dates among the 250 lines following its header.
\<close>

definition version_labels :: "string list \<Rightarrow> string list" where
  "version_labels lns =
     List.map_filter (\<lambda>ln. map_option (\<lambda>(g, _). group g 1) (re_match VERSAO_LINHA_RE (strip ln))) lns"

definition lines_following :: "string \<Rightarrow> string list" where
  "lines_following tail = drop 1 (splitlines tail)"

definition version_scan :: "string \<Rightarrow> string option" where
  "version_scan text =
     (case re_search CONTROL_VER_RE text of None \<Rightarrow> None
      | Some (g, tail) \<Rightarrow>
          (case version_labels (take 120 (lines_following tail)) of [] \<Rightarrow> None
           | l # ls \<Rightarrow> Some (last (l # ls))))"

definition schedule_scan :: "string \<Rightarrow> string option \<times> string option" where
  "schedule_scan text =
     (case re_search HIST_CRONO_RE text of None \<Rightarrow> (None, None)
      | Some (g, tail) \<Rightarrow>
          (let ds = re_findall DATE_DDMMYYYY (join [CHR 10] (take 250 (lines_following tail)))
           in if 2 \<le> length ds then (Some (last (butlast ds)), Some (last ds))
              else (None, None)))"

section \<open>The scans with the rest of the header's line counted\<close>

text \<open>
  The window the amended claim speaks of: what is left of the header's own line, and the
  \<open>n\<close> lines following it. The amended version scan reads this window with \<open>n = 119\<close>,
  the amended schedule scan with \<open>n = 249\<close>.
\<close>

definition header_window :: "nat \<Rightarrow> string \<Rightarrow> string list" where
  "header_window n tail = take 1 (splitlines tail) @ take n (lines_following tail)"

definition version_scan_amended :: "string \<Rightarrow> string option" where
  "version_scan_amended text =
     (case re_search CONTROL_VER_RE text of None \<Rightarrow> None
      | Some (g, tail) \<Rightarrow>
          (case version_labels (header_window 119 tail) of [] \<Rightarrow> None
           | l # ls \<Rightarrow> Some (last (l # ls))))"

definition schedule_scan_amended :: "string \<Rightarrow> string option \<times> string option" where
  "schedule_scan_amended text =
     (case re_search HIST_CRONO_RE text of None \<Rightarrow> (None, None)
      | Some (g, tail) \<Rightarrow>
          (let ds = re_findall DATE_DDMMYYYY (join [CHR 10] (header_window 249 tail))
           in if 2 \<le> length ds then (Some (last (butlast ds)), Some (last ds))
              else (None, None)))"

section \<open>Example inputs\<close>

definition descr_label :: string where
  "descr_label = ''Descri'' @ [c_cedil, a_tilde] @ ''o''"

definition ex_header :: row where
  "ex_header = [Some ''Campo'', Some ''Regra'', Some ''Aplic.'', Some ''Msg'', Some descr_label]"

definition ex_data :: row where
  "ex_data = [Some ''B09'', Some ''B09-20'', Some ''Obrig.'', Some ''656'',
              Some (''Campo obrigat'' @ [o_acute] @ ''rio'')]"

definition ex_rule :: rule where
  "ex_rule = [(''campo'', ''B09''), (''regra'', ''B09-20''), (''aplic'', ''Obrig.''),
              (''msg'', ''656''), (''descricao'', ''Campo obrigat'' @ [o_acute] @ ''rio'')]"

definition ex_header_rule :: rule where
  "ex_header_rule = [(''campo'', ''Campo''), (''regra'', ''Regra''), (''aplic'', ''Aplic.''),
                     (''msg'', ''Msg''), (''descricao'', descr_label)]"

definition ex_pdf :: pdf where
  "ex_pdf = \<lparr>pypdf_pages = None, plumber_pages = Some [[[ex_header, ex_data]]]\<rparr>"

definition unreadable_pdf :: pdf where
  "unreadable_pdf = \<lparr>pypdf_pages = None, plumber_pages = None\<rparr>"

definition id_table :: table where
  "id_table = [[Some ''ID'', Some ''Aplic.'', Some ''Msg'', Some ''Descricao''],
               [Some ''X1'', Some ''Obrig.'', Some ''656'', Some ''Campo invalido'']]"

definition ex_text :: string where
  "ex_text = ''Controle de Vers'' @ [o_tilde] @ ''es'' @ [CHR 10]
             @ ''1.00 01/2025 foo'' @ [CHR 10] @ ''1.10 03/2025 bar'' @ [CHR 10]
             @ ''1.20 06/2025 baz'' @ [CHR 10]
             @ ''Hist'' @ [o_acute] @ ''rico de Altera'' @ [c_cedil, o_tilde] @ ''es / Cronograma''
             @ [CHR 10] @ ''01/03/2025 15/06/2025'' @ [CHR 10] @ ''01/07/2025''"

definition late_version_text :: string where
  "late_version_text = ''Controle de Vers'' @ [o_tilde] @ ''es'' @ [CHR 10]
                       @ concat (replicate 119 (''x'' @ [CHR 10]))
                       @ ''1.20 06/2025 baz''"

definition inline_version_text :: string where
  "inline_version_text = ''Controle de Vers'' @ [o_tilde] @ ''es 1.20 06/2025 baz''"

definition ex_section_text :: string where
  "ex_section_text = ''7. Regras de Valida'' @ [c_cedil, a_tilde] @ ''o'' @ [CHR 10, CHR 10]
                     @ ''B09-20 656 Campo invalido''"

section \<open>Closed forms for the proofs\<close>

text \<open>
  What the first two substitutions of \<open>clean_space\<close> compute, written as recursions over
  the string: a run of blanks becomes one space, and a run of whitespace with a newline
  in it becomes one newline. \<open>spaced\<close> and \<open>tidy\<close> are the shapes of the string after the
  first and after the second of them. \<open>grps\<close> are the group numbers of a pattern.
\<close>

function squeeze_blanks :: "string \<Rightarrow> string" where
  "squeeze_blanks [] = []"
| "squeeze_blanks (x # xs) =
     (if is_blank x then CHR '' '' # squeeze_blanks (dropWhile is_blank xs)
      else x # squeeze_blanks xs)"
  by pat_completeness auto

termination
  by (relation "measure length") (auto simp: less_Suc_eq_le length_dropWhile_le)

definition nl_run :: "string \<Rightarrow> bool" where
  "nl_run s \<longleftrightarrow> CHR 10 \<in> set (takeWhile is_space s)"

function collapse_nl :: "string \<Rightarrow> string" where
  "collapse_nl [] = []"
| "collapse_nl (x # xs) =
     (if nl_run (x # xs)
      then CHR 10 # collapse_nl (dropWhile is_space xs)
      else x # collapse_nl xs)"
  by pat_completeness auto

termination
proof (relation "measure length")
  show "wf (measure length)" by simp
next
  fix x :: char and xs :: string
  have "length (dropWhile is_space xs) \<le> length xs" by (rule length_dropWhile_le)
  then show "(dropWhile is_space xs, x # xs) \<in> measure length" by simp
next
  fix x :: char and xs :: string
  show "(xs, x # xs) \<in> measure length" by simp
qed

fun spaced :: "string \<Rightarrow> bool" where
  "spaced [] = True"
| "spaced [x] = (x \<noteq> nbsp \<and> x \<noteq> CHR 9)"
| "spaced (x # y # ys) =
     (x \<noteq> nbsp \<and> x \<noteq> CHR 9 \<and> \<not> (x = CHR '' '' \<and> y = CHR '' '') \<and> spaced (y # ys))"

fun tidy :: "string \<Rightarrow> bool" where
  "tidy [] = True"
| "tidy [x] = (x \<noteq> nbsp \<and> x \<noteq> CHR 9)"
| "tidy (x # y # ys) =
     (x \<noteq> nbsp \<and> x \<noteq> CHR 9 \<and> \<not> (x = CHR '' '' \<and> y = CHR '' '')
      \<and> \<not> (x = CHR 10 \<and> is_space y) \<and> \<not> (is_space x \<and> y = CHR 10) \<and> tidy (y # ys))"

primrec grps :: "rx \<Rightarrow> nat set" where
  "grps (Chr P) = {}"
| "grps (Rep P lo hi) = {}"
| "grps (Cat a b) = grps a \<union> grps b"
| "grps (Alt a b) = grps a \<union> grps b"
| "grps (Grp n a) = insert n (grps a)"
| "grps Bos = {}"
| "grps Eos = {}"
| "grps Wb = {}"

definition cedil_group :: rx where
  "cedil_group = Grp 1 (Alt (liti c_cedil) (liti (CHR ''c'')))"

text \<open>
  The words of a string, its runs of characters that are not whitespace, with the word
  being read in \<open>cur\<close>; and the row at which the header loop stops.
\<close>

fun words_acc :: "string \<Rightarrow> string \<Rightarrow> string list" where
  "words_acc cur [] = (if cur = [] then [] else [cur])"
| "words_acc cur (x # xs) =
     (if is_space x then (if cur = [] then words_acc [] xs else cur # words_acc [] xs)
      else words_acc (cur @ [x]) xs)"

fun header_row :: "row list \<Rightarrow> row option" where
  "header_row [] = None"
| "header_row (r # rs) =
     (if guess_has_rv_header (map or_empty r) then Some r else header_row rs)"

section \<open>Substrings of joined cells\<close>

lemma str_in_sublist: "str_in n h \<longleftrightarrow> sublist n h"
  by (induction h) (auto simp: sublist_Cons_right)

lemma sublist_sep:
  assumes "kw \<noteq> []" "set kw \<inter> set sep = {}" "sep \<noteq> []"
  shows "sublist kw (a @ sep @ b) \<longleftrightarrow> sublist kw a \<or> sublist kw b"
proof
  assume "sublist kw a \<or> sublist kw b"
  then show "sublist kw (a @ sep @ b)"
    by (auto simp: sublist_def) (metis append.assoc)+
next
  assume "sublist kw (a @ sep @ b)"
  then obtain ps ss where e: "a @ sep @ b = ps @ kw @ ss"
    by (auto simp: sublist_def)
  show "sublist kw a \<or> sublist kw b"
  proof (cases "length ps + length kw \<le> length a")
    case True
    with e have "take (length ps + length kw) a = ps @ kw"
      by (metis append.assoc append_eq_conv_conj length_append take_append diff_is_0_eq' take_0 append_Nil2)
    then have "a = ps @ kw @ drop (length ps + length kw) a"
      by (metis append.assoc append_take_drop_id)
    then show ?thesis by (auto simp: sublist_def)
  next
    case False
    note F = this
    show ?thesis
    proof (cases "length a + length sep \<le> length ps")
      case True
      from e have "drop (length a + length sep) (a @ sep @ b) = drop (length a + length sep) (ps @ kw @ ss)"
        by simp
      with True have "b = drop (length a + length sep) ps @ kw @ ss"
        by simp
      then show ?thesis by (auto simp: sublist_def)
    next
      case False
      define i where "i = max (length a) (length ps)"
      have i1: "length a \<le> i" "i < length a + length sep" "length ps \<le> i" "i < length ps + length kw"
        using F False assms(1,3) by (auto simp: i_def)
      have j1: "i - length a < length sep" "\<not> i < length a" using i1 by arith+
      have j2: "i - length ps < length kw" "\<not> i < length ps" using i1 by arith+
      have "(a @ sep @ b) ! i = sep ! (i - length a)"
        using j1 by (simp add: nth_append)
      moreover have "(ps @ kw @ ss) ! i = kw ! (i - length ps)"
        using j2 by (simp add: nth_append)
      ultimately have "sep ! (i - length a) = kw ! (i - length ps)"
        using e by simp
      moreover have "sep ! (i - length a) \<in> set sep" using j1 by simp
      moreover have "kw ! (i - length ps) \<in> set kw" using j2 by simp
      ultimately show ?thesis using assms(2) by auto
    qed
  qed
qed

lemma sublist_join:
  assumes "kw \<noteq> []" "set kw \<inter> set sep = {}" "sep \<noteq> []"
  shows "sublist kw (join sep xs) \<longleftrightarrow> (\<exists>x \<in> set xs. sublist kw x)"
  using assms by (induction sep xs rule: join.induct) (auto simp: sublist_sep)

section \<open>Header-row recognition\<close>

text \<open>
  C3, as the claim states it, fails on its second example: the row
  \<open>["Aplic.", "Mensagem", "Cstat"]\<close> has no cell with \<open>msg\<close> in it, and no cell with
  \<open>descri\<close>, so \<open>_guess_has_rv_header\<close> rejects it.
\<close>

theorem header_mensagem_cstat_rejected:
  "\<not> guess_has_rv_header [''Aplic.'', ''Mensagem'', ''Cstat'']"
  by code_simp

text \<open>
  C3, amended: a row is a header exactly when, after lowering, some cell contains
  \<open>aplic\<close> and some cell contains \<open>msg\<close>, or some cell contains \<open>descri\<close> and some cell
  contains \<open>regra\<close>. The row \<open>["Campo", "Regra", "Aplic.", "Msg", "Descri\xe7\xe3o"]\<close> is
  a header; \<open>["Aplic.", "Mensagem", "Cstat"]\<close> is not, and becomes one with \<open>Msg\<close> in
  place of \<open>Mensagem\<close>.
\<close>

theorem guess_has_rv_header_cells:
  "(guess_has_rv_header r \<longleftrightarrow>
      ((\<exists>c \<in> set r. str_in ''aplic'' (lower c)) \<and> (\<exists>c \<in> set r. str_in ''msg'' (lower c)))
      \<or> ((\<exists>c \<in> set r. str_in ''descri'' (lower c)) \<and> (\<exists>c \<in> set r. str_in ''regra'' (lower c))))
   \<and> guess_has_rv_header [''Campo'', ''Regra'', ''Aplic.'', ''Msg'', descr_label]
   \<and> \<not> guess_has_rv_header [''Aplic.'', ''Mensagem'', ''Cstat'']
   \<and> guess_has_rv_header [''Aplic.'', ''Msg'', ''Cstat'']"
proof -
  have "guess_has_rv_header r \<longleftrightarrow>
      ((\<exists>c \<in> set r. str_in ''aplic'' (lower c)) \<and> (\<exists>c \<in> set r. str_in ''msg'' (lower c)))
      \<or> ((\<exists>c \<in> set r. str_in ''descri'' (lower c)) \<and> (\<exists>c \<in> set r. str_in ''regra'' (lower c)))"
    by (simp add: guess_has_rv_header_def Let_def str_in_sublist sublist_join)
  moreover have "guess_has_rv_header [''Campo'', ''Regra'', ''Aplic.'', ''Msg'', descr_label]"
    by code_simp
  moreover have "\<not> guess_has_rv_header [''Aplic.'', ''Mensagem'', ''Cstat'']"
    by code_simp
  moreover have "guess_has_rv_header [''Aplic.'', ''Msg'', ''Cstat'']"
    by code_simp
  ultimately show ?thesis by blast
qed

theorem guess_has_rv_header_cells_witness:
  "guess_has_rv_header [''Regra'', ''x'', ''DESCRI'']
   \<and> str_in ''descri'' (lower ''DESCRI'') \<and> str_in ''regra'' (lower ''Regra'')"
proof -
  have "str_in ''descri'' (lower ''DESCRI'')" "str_in ''regra'' (lower ''Regra'')"
    by code_simp+
  moreover from this have "guess_has_rv_header [''Regra'', ''x'', ''DESCRI'']"
    using guess_has_rv_header_cells [of "[''Regra'', ''x'', ''DESCRI'']"] by simp
  ultimately show ?thesis by simp
qed

section \<open>The records of the table path\<close>

lemma ebind_Inr_iff: "ebind x f = Inr y \<longleftrightarrow> (\<exists>v. x = Inr v \<and> f v = Inr y)"
  by (cases x) (auto simp: ebind_def)

lemma rows_loop_keeps:
  "rows_loop header out rs = Inr out' \<Longrightarrow>
     \<exists>new. out' = out @ new \<and> (\<forall>r \<in> set new. keep_row r \<and> (\<exists>rw \<in> set rs. make_row header rw = Inr r))"
proof (induction rs arbitrary: out)
  case Nil
  then show ?case by simp
next
  case (Cons r rs)
  from Cons.prems obtain rw where rw: "make_row header r = Inr rw"
    and rest: "rows_loop header (if keep_row rw then out @ [rw] else out) rs = Inr out'"
    by (auto simp: ebind_Inr_iff)
  from Cons.IH [OF rest] obtain new where
    new: "out' = (if keep_row rw then out @ [rw] else out) @ new"
      "\<forall>r \<in> set new. keep_row r \<and> (\<exists>rw \<in> set rs. make_row header rw = Inr r)"
    by blast
  show ?case
  proof (cases "keep_row rw")
    case True
    with new rw have "out' = out @ (rw # new)" by simp
    moreover have "\<forall>x \<in> set (rw # new). keep_row x \<and> (\<exists>y \<in> set (r # rs). make_row header y = Inr x)"
      using True new(2) rw by auto
    ultimately show ?thesis by blast
  next
    case False
    with new show ?thesis by auto
  qed
qed

lemma table_step_keeps:
  "table_step out tbl = Inr out' \<Longrightarrow> \<exists>new. out' = out @ new \<and> (\<forall>r \<in> set new. keep_row r)"
  unfolding table_step_def
  by (auto split: if_splits option.splits dest!: rows_loop_keeps)

lemma tables_loop_keeps:
  "tables_loop out tbls = Inr out' \<Longrightarrow> \<exists>new. out' = out @ new \<and> (\<forall>r \<in> set new. keep_row r)"
proof (induction tbls arbitrary: out)
  case Nil
  then show ?case by simp
next
  case (Cons t ts)
  from Cons.prems obtain mid where m: "table_step out t = Inr mid" "tables_loop mid ts = Inr out'"
    by (auto simp: ebind_Inr_iff)
  from table_step_keeps [OF m(1)] Cons.IH [OF m(2)] show ?case
    by (metis append.assoc set_append Un_iff)
qed

lemma pages_loop_keeps:
  "pages_loop out pages = Inr out' \<Longrightarrow> \<exists>new. out' = out @ new \<and> (\<forall>r \<in> set new. keep_row r)"
proof (induction pages arbitrary: out)
  case Nil
  then show ?case by simp
next
  case (Cons t ts)
  from Cons.prems obtain mid where m: "tables_loop out t = Inr mid" "pages_loop mid ts = Inr out'"
    by (auto simp: ebind_Inr_iff)
  from tables_loop_keeps [OF m(1)] Cons.IH [OF m(2)] show ?case
    by (metis append.assoc set_append Un_iff)
qed

text \<open>
  C9: every record the rule-table parser returns has a field that is not empty and a
  description of length at least 3 after \<open>clean_space\<close>; a table of fewer than two rows
  leaves \<open>out\<close> as it was.
\<close>

theorem table_records_min_content:
  "(parse_rv_tables p = Inr out \<longrightarrow>
      (\<forall>r \<in> set out. (\<exists>v \<in> set (map snd r). v \<noteq> [])
                      \<and> 3 \<le> length (clean_space (dict_get r ''descricao''))))
   \<and> (length tbl < 2 \<longrightarrow> table_step acc tbl = Inr acc)"
proof
  show "parse_rv_tables p = Inr out \<longrightarrow>
      (\<forall>r \<in> set out. (\<exists>v \<in> set (map snd r). v \<noteq> [])
                      \<and> 3 \<le> length (clean_space (dict_get r ''descricao'')))"
  proof
    assume "parse_rv_tables p = Inr out"
    then obtain pages where "pages_loop [] pages = Inr out"
      by (auto simp: parse_rv_tables_def split: option.splits)
    from pages_loop_keeps [OF this] have "\<forall>r \<in> set out. keep_row r" by auto
    then show "\<forall>r \<in> set out. (\<exists>v \<in> set (map snd r). v \<noteq> [])
                      \<and> 3 \<le> length (clean_space (dict_get r ''descricao''))"
      by (simp add: keep_row_def)
  qed
  show "length tbl < 2 \<longrightarrow> table_step acc tbl = Inr acc"
    by (simp add: table_step_def)
qed

theorem table_records_min_content_witness:
  "parse_rv_tables ex_pdf = Inr [ex_rule]
   \<and> 3 \<le> length (clean_space (dict_get ex_rule ''descricao''))
   \<and> length [ex_header] < 2 \<and> table_step [ex_rule] [ex_header] = Inr [ex_rule]"
proof -
  have h: "parse_rv_tables ex_pdf = Inr [ex_rule]"
    by code_simp
  from table_records_min_content [of ex_pdf "[ex_rule]" "[ex_header]" "[ex_rule]"] h
  show ?thesis by simp
qed

text \<open>
  C4: the rows the parser reads are \<open>tbl[1:]\<close>, wherever the header was found. In a table
  whose header is its second row, the header row is read as data and, its description
  cell being the label itself, kept as a record.
\<close>

theorem header_row_read_as_data:
  "table_step [] [[Some ''Tabela X''], ex_header, ex_data] = Inr [ex_header_rule, ex_rule]"
  by code_simp

section \<open>The substitutions of \<open>clean_space\<close>\<close>

lemma rep0_nonempty: "rep P 0 None p xs \<noteq> []"
  by (cases xs) auto

lemma rep0_hd: "snd (hd (rep P 0 None p xs)) = dropWhile P xs"
proof (induction xs arbitrary: p)
  case Nil
  then show ?case by simp
next
  case (Cons x xs)
  show ?case
  proof (cases "P x")
    case True
    with Cons.IH [of "Some x"] rep0_nonempty [of P "Some x" xs] show ?thesis
      by (simp add: hd_append)
  next
    case False
    then show ?thesis by simp
  qed
qed

lemma match_here_Nil: "match_here r prev [] = None"
  by (simp add: match_here_def split: list.splits)

lemma sub_loop_Nil: "sub_loop r repl prev [] = []"
  by (subst sub_loop.simps) (simp add: match_here_Nil)

lemma sub_loop_Cons:
  "sub_loop r repl prev (x # xs) =
     (case match_here r prev (x # xs) of
        Some (p, rest', g) \<Rightarrow> repl @ sub_loop r repl p rest'
      | None \<Rightarrow> x # sub_loop r repl (Some x) xs)"
  by (subst sub_loop.simps) (simp split: option.splits)

lemma match_here_blanks:
  "match_here BLANKS_RE prev (x # xs) =
     (if is_blank x then Some (fst (hd (rep is_blank 0 None (Some x) xs)), dropWhile is_blank xs, []) else None)"
proof (cases "is_blank x")
  case True
  obtain p r rs where e: "rep is_blank 0 None (Some x) xs = (p, r) # rs"
    using rep0_nonempty [of is_blank "Some x" xs] by (cases "rep is_blank 0 None (Some x) xs") auto
  with rep0_hd [of is_blank "Some x" xs] have r: "r = dropWhile is_blank xs" by simp
  have "length (dropWhile is_blank xs) \<le> length xs" by (rule length_dropWhile_le)
  with True e r show ?thesis
    by (simp add: match_here_def BLANKS_RE_def plus_def)
next
  case False
  then show ?thesis by (simp add: match_here_def BLANKS_RE_def plus_def)
qed

lemma sub_loop_blanks: "sub_loop BLANKS_RE '' '' prev s = squeeze_blanks s"
proof (induction s arbitrary: prev rule: squeeze_blanks.induct)
  case 1
  show ?case by (simp add: sub_loop_Nil)
next
  case (2 x xs)
  then show ?case
    by (simp add: sub_loop_Cons match_here_blanks)
qed

lemma pad_Nil: "ms NL_PAD_RE (prev, [], g) = []"
  by (simp add: NL_PAD_RE_def star_def lit_def)

lemma pad_Cons:
  "ms NL_PAD_RE (prev, x # xs, g) =
     (if is_space x then ms NL_PAD_RE (Some x, xs, g) else [])
     @ (if x = CHR 10 then map (\<lambda>(p, r). (p, r, g)) (rep is_space 0 None (Some x) xs) else [])"
  by (simp add: NL_PAD_RE_def star_def lit_def)

lemma nl_is_space: "is_space (CHR 10)"
  by (simp add: is_space_def cp_def)

lemma pad_results:
  "(ms NL_PAD_RE (prev, rest, g) = [] \<longleftrightarrow> CHR 10 \<notin> set (takeWhile is_space rest))
   \<and> (ms NL_PAD_RE (prev, rest, g) \<noteq> [] \<longrightarrow>
        fst (snd (hd (ms NL_PAD_RE (prev, rest, g)))) = dropWhile is_space rest)"
proof (induction rest arbitrary: prev)
  case Nil
  show ?case by (simp add: pad_Nil)
next
  case (Cons x xs)
  note IH = Cons.IH [of "Some x"]
  show ?case
  proof (cases "is_space x")
    case sp: True
    show ?thesis
    proof (cases "ms NL_PAD_RE (Some x, xs, g) = []")
      case True
      with IH have no: "CHR 10 \<notin> set (takeWhile is_space xs)" by simp
      show ?thesis
      proof (cases "x = CHR 10")
        case True
        obtain p r rs where e: "rep is_space 0 None (Some x) xs = (p, r) # rs"
          using rep0_nonempty [of is_space "Some x" xs]
          by (cases "rep is_space 0 None (Some x) xs") auto
        with rep0_hd [of is_space "Some x" xs] have "r = dropWhile is_space xs" by simp
        with True sp e \<open>ms NL_PAD_RE (Some x, xs, g) = []\<close> show ?thesis
          by (simp add: pad_Cons)
      next
        case False
        with sp no \<open>ms NL_PAD_RE (Some x, xs, g) = []\<close> show ?thesis
          by (simp add: pad_Cons)
      qed
    next
      case False
      with IH have "CHR 10 \<in> set (takeWhile is_space xs)"
        "fst (snd (hd (ms NL_PAD_RE (Some x, xs, g)))) = dropWhile is_space xs" by auto
      with sp False show ?thesis
        by (simp add: pad_Cons hd_append)
    qed
  next
    case False
    then have "x \<noteq> CHR 10" using nl_is_space by auto
    with False show ?thesis by (simp add: pad_Cons)
  qed
qed

lemma match_here_pad:
  "match_here NL_PAD_RE prev rest =
     (if CHR 10 \<in> set (takeWhile is_space rest)
      then Some (fst (hd (ms NL_PAD_RE (prev, rest, []))), dropWhile is_space rest,
                 snd (snd (hd (ms NL_PAD_RE (prev, rest, [])))))
      else None)"
proof (cases "CHR 10 \<in> set (takeWhile is_space rest)")
  case True
  with pad_results [of prev rest "[]"] have ne: "ms NL_PAD_RE (prev, rest, []) \<noteq> []"
    and r: "fst (snd (hd (ms NL_PAD_RE (prev, rest, [])))) = dropWhile is_space rest"
    by auto
  from True have "takeWhile is_space rest \<noteq> []" by auto
  then have "length (dropWhile is_space rest) < length rest"
    by (metis append_Nil length_dropWhile_le le_neq_implies_less takeWhile_dropWhile_id
        append_eq_conv_conj drop_eq_Nil2 length_append add_diff_cancel_right' diff_is_0_eq' order_refl length_0_conv)
  with ne r True show ?thesis
    by (cases "ms NL_PAD_RE (prev, rest, [])") (auto simp: match_here_def)
next
  case False
  with pad_results [of prev rest "[]"] show ?thesis
    by (simp add: match_here_def)
qed

lemma sub_loop_pad: "sub_loop NL_PAD_RE [CHR 10] prev s = collapse_nl s"
proof (induction s arbitrary: prev rule: collapse_nl.induct)
  case 1
  show ?case by (simp add: sub_loop_Nil)
next
  case (2 x xs)
  show ?case
  proof (cases "nl_run (x # xs)")
    case True
    then have "is_space x" by (cases "is_space x") (auto simp: nl_run_def)
    then have d: "dropWhile is_space (x # xs) = dropWhile is_space xs" by simp
    have m: "match_here NL_PAD_RE prev (x # xs) =
        Some (fst (hd (ms NL_PAD_RE (prev, x # xs, []))), dropWhile is_space xs,
              snd (snd (hd (ms NL_PAD_RE (prev, x # xs, [])))))"
      using True unfolding nl_run_def match_here_pad d by simp
    show ?thesis
      using True "2.IH"(1) by (simp add: sub_loop_Cons m)
  next
    case False
    then have m: "match_here NL_PAD_RE prev (x # xs) = None"
      unfolding nl_run_def match_here_pad by simp
    show ?thesis
      using False "2.IH"(2) by (simp add: sub_loop_Cons m)
  qed
qed

lemma match_here_nl3:
  assumes m: "match_here NL3_RE prev rest = Some m"
  shows "\<exists>r. rest = CHR 10 # CHR 10 # r"
proof (cases rest)
  case Nil
  with m show ?thesis by (simp add: match_here_Nil)
next
  case (Cons x xs)
  show ?thesis
  proof (cases xs)
    case Nil
    with Cons m show ?thesis
      by (simp add: match_here_def NL3_RE_def is_nl_def split: if_splits)
  next
    case (Cons y ys)
    with \<open>rest = x # xs\<close> m show ?thesis
      by (cases "x = CHR 10"; cases "y = CHR 10")
         (simp_all add: match_here_def NL3_RE_def is_nl_def)
  qed
qed

lemma spaced_Cons: "spaced (x # xs) \<Longrightarrow> spaced xs"
  by (cases xs) auto

lemma spaced_dropWhile: "spaced xs \<Longrightarrow> spaced (dropWhile P xs)"
  by (induction xs) (auto dest: spaced_Cons)

lemma tidy_Cons: "tidy (x # xs) \<Longrightarrow> tidy xs"
  by (cases xs) auto

lemma tidy_head: "tidy (x # xs) \<Longrightarrow> x \<noteq> nbsp \<and> x \<noteq> CHR 9"
  by (cases xs) auto

lemma tidy_dropWhile: "tidy xs \<Longrightarrow> tidy (dropWhile P xs)"
  by (induction xs) (auto dest: tidy_Cons)

lemma tidy_prefix: "tidy (a @ b) \<Longrightarrow> tidy a"
proof (induction a rule: tidy.induct)
  case 1
  show ?case by simp
next
  case (2 x)
  then show ?case by (auto dest: tidy_head)
next
  case (3 x y ys)
  then show ?case by simp
qed

lemma nbsp_not_blank: "nbsp \<noteq> CHR '' ''" "nbsp \<noteq> CHR 10" "nbsp \<noteq> CHR 9"
  by (simp_all add: nbsp_def)

lemma replace_no_nbsp: "nbsp \<notin> set (replace_char nbsp '' '' s)"
  by (induction s) (auto simp: replace_char_def nbsp_not_blank)

lemma replace_id: "nbsp \<notin> set s \<Longrightarrow> replace_char nbsp new s = s"
  by (induction s) (auto simp: replace_char_def)

lemma squeeze_spaced: "nbsp \<notin> set s \<Longrightarrow> spaced (squeeze_blanks s)"
proof (induction s rule: squeeze_blanks.induct)
  case 1
  show ?case by simp
next
  case (2 x xs)
  show ?case
  proof (cases "is_blank x")
    case True
    let ?d = "dropWhile is_blank xs"
    have "set ?d \<subseteq> set xs" by (auto dest: set_dropWhileD)
    with "2.prems" have "nbsp \<notin> set ?d" by auto
    with "2.IH"(1) True have sp: "spaced (squeeze_blanks ?d)" by simp
    have e: "squeeze_blanks (x # xs) = CHR '' '' # squeeze_blanks ?d"
      using True by simp
    show ?thesis
    proof (cases ?d)
      case Nil
      show ?thesis unfolding e Nil by (simp add: nbsp_not_blank [symmetric])
    next
      case (Cons z zs)
      then have "\<not> is_blank z" using hd_dropWhile [of is_blank xs] by auto
      then have "z \<noteq> CHR '' ''" by (auto simp: is_blank_def)
      with sp \<open>\<not> is_blank z\<close> show ?thesis unfolding e Cons
        by (simp add: nbsp_not_blank [symmetric])
    qed
  next
    case False
    with "2.prems" "2.IH"(2) have sp: "spaced (squeeze_blanks xs)" by simp
    from False have x: "x \<noteq> CHR '' ''" "x \<noteq> CHR 9" by (auto simp: is_blank_def)
    from "2.prems" have "x \<noteq> nbsp" by auto
    with False sp x show ?thesis
      by (cases "squeeze_blanks xs") auto
  qed
qed

lemma nl_run_Cons: "nl_run (x # xs) \<longleftrightarrow> is_space x \<and> (x = CHR 10 \<or> nl_run xs)"
  unfolding nl_run_def by (cases "is_space x") auto

lemma collapse_head:
  "collapse_nl ys = w # ws \<Longrightarrow> (w = CHR 10 \<and> nl_run ys) \<or> (ys \<noteq> [] \<and> w = hd ys \<and> \<not> nl_run ys)"
  by (cases ys) (auto split: if_splits)

lemma collapse_tidy: "spaced t \<Longrightarrow> tidy (collapse_nl t)"
proof (induction t rule: collapse_nl.induct)
  case 1
  show ?case by simp
next
  case (2 x xs)
  show ?case
  proof (cases "nl_run (x # xs)")
    case True
    let ?d = "dropWhile is_space xs"
    from "2.prems" have "spaced ?d" by (auto dest: spaced_Cons intro: spaced_dropWhile)
    with "2.IH"(1) True have td: "tidy (collapse_nl ?d)" by simp
    have e: "collapse_nl (x # xs) = CHR 10 # collapse_nl ?d"
      using True by simp
    show ?thesis
    proof (cases ?d)
      case Nil
      show ?thesis unfolding e Nil by (simp add: nbsp_not_blank [symmetric])
    next
      case (Cons z zs)
      then have z: "\<not> is_space z" using hd_dropWhile [of is_space xs] by auto
      then have "z \<noteq> CHR 10" using nl_is_space by auto
      moreover from z have "\<not> nl_run (z # zs)" by (simp add: nl_run_Cons)
      ultimately show ?thesis using td z unfolding e Cons
        by (simp add: nbsp_not_blank [symmetric])
    qed
  next
    case False
    from "2.prems" have "spaced xs" by (rule spaced_Cons)
    with "2.IH"(2) False have tx: "tidy (collapse_nl xs)" by simp
    from "2.prems" have x: "x \<noteq> nbsp" "x \<noteq> CHR 9" by (cases xs; simp)+
    show ?thesis
    proof (cases "collapse_nl xs")
      case Nil
      with False x show ?thesis by simp
    next
      case (Cons w ws)
      from collapse_head [OF Cons] have
        h: "(w = CHR 10 \<and> nl_run xs) \<or> (xs \<noteq> [] \<and> w = hd xs \<and> \<not> nl_run xs)" .
      have a: "\<not> (x = CHR '' '' \<and> w = CHR '' '')"
        using h "2.prems" by (cases xs) auto
      have b: "\<not> (x = CHR 10 \<and> is_space w)"
        using False nl_is_space by (auto simp: nl_run_Cons)
      have c: "\<not> (is_space x \<and> w = CHR 10)"
      proof
        assume "is_space x \<and> w = CHR 10"
        with h have "nl_run xs" using nl_is_space by (cases xs) (auto simp: nl_run_Cons)
        with \<open>is_space x \<and> w = CHR 10\<close> False show False by (simp add: nl_run_Cons)
      qed
      from a b c x tx Cons False show ?thesis by simp
    qed
  qed
qed

lemma tidy_no_nbsp: "tidy r \<Longrightarrow> nbsp \<notin> set r"
  by (induction r rule: tidy.induct) auto

lemma tidy_squeeze: "tidy r \<Longrightarrow> squeeze_blanks r = r"
proof (induction r rule: tidy.induct)
  case 1
  show ?case by simp
next
  case (2 x)
  then show ?case by (auto simp: is_blank_def)
next
  case (3 x y ys)
  from "3.prems" have y: "y \<noteq> CHR 9" by (auto dest: tidy_head)
  from "3.prems" "3.IH" have ih: "squeeze_blanks (y # ys) = y # ys" by simp
  show ?case
  proof (cases "is_blank x")
    case True
    with "3.prems" have "x = CHR '' ''" by (auto simp: is_blank_def)
    with "3.prems" y have "\<not> is_blank y" by (auto simp: is_blank_def)
    with True ih \<open>x = CHR '' ''\<close> show ?thesis by simp
  next
    case False
    with ih show ?thesis by simp
  qed
qed

lemma tidy_run: "tidy (x # xs) \<Longrightarrow> is_space x \<Longrightarrow> x \<noteq> CHR 10 \<Longrightarrow> \<not> nl_run xs"
proof (induction xs arbitrary: x)
  case Nil
  show ?case by (simp add: nl_run_def)
next
  case (Cons y ys)
  from Cons.prems have y: "y \<noteq> CHR 10" by auto
  show ?case
  proof (cases "is_space y")
    case True
    from Cons.prems have "tidy (y # ys)" by simp
    from Cons.IH [OF this True y] y show ?thesis by (simp add: nl_run_Cons)
  next
    case False
    then show ?thesis by (simp add: nl_run_Cons)
  qed
qed

lemma tidy_collapse: "tidy r \<Longrightarrow> collapse_nl r = r"
proof (induction r)
  case Nil
  show ?case by simp
next
  case (Cons x xs)
  from Cons have ih: "collapse_nl xs = xs" by (auto dest: tidy_Cons)
  show ?case
  proof (cases "nl_run (x # xs)")
    case True
    then have sx: "is_space x" by (simp add: nl_run_Cons)
    have "x = CHR 10"
    proof (rule ccontr)
      assume "x \<noteq> CHR 10"
      from tidy_run [OF Cons.prems sx this] True \<open>x \<noteq> CHR 10\<close> show False
        by (simp add: nl_run_Cons)
    qed
    with Cons.prems have "dropWhile is_space xs = xs" by (cases xs) auto
    with True ih \<open>x = CHR 10\<close> show ?thesis by simp
  next
    case False
    with ih show ?thesis by simp
  qed
qed

lemma tidy_nl3: "tidy r \<Longrightarrow> sub_loop NL3_RE repl prev r = r"
proof (induction r arbitrary: prev)
  case Nil
  show ?case by (simp add: sub_loop_Nil)
next
  case (Cons x xs)
  have "match_here NL3_RE prev (x # xs) = None"
  proof (cases "match_here NL3_RE prev (x # xs)")
    case None
    then show ?thesis .
  next
    case (Some m)
    from match_here_nl3 [OF this] obtain r where "x # xs = CHR 10 # CHR 10 # r" by blast
    with Cons.prems nl_is_space show ?thesis by auto
  qed
  moreover from Cons have "sub_loop NL3_RE repl (Some x) xs = xs" by (auto dest: tidy_Cons)
  ultimately show ?case by (simp add: sub_loop_Cons)
qed

lemma tidy_strip: "tidy w \<Longrightarrow> tidy (strip w)"
proof -
  assume t: "tidy w"
  have "tidy (dropWhile is_space w)" using t by (rule tidy_dropWhile)
  moreover have "dropWhile is_space w
      = strip w @ rev (takeWhile is_space (rev (dropWhile is_space w)))"
    unfolding strip_def
    by (metis rev_append rev_rev_ident takeWhile_dropWhile_id)
  ultimately show ?thesis by (metis tidy_prefix)
qed

lemma strip_ends:
  "strip s \<noteq> [] \<Longrightarrow> \<not> is_space (hd (strip s)) \<and> \<not> is_space (last (strip s))"
proof -
  assume ne: "strip s \<noteq> []"
  let ?d = "dropWhile is_space s"
  let ?e = "dropWhile is_space (rev ?d)"
  have u: "strip s = rev ?e" by (simp add: strip_def)
  with ne have e: "?e \<noteq> []" by simp
  then have "\<not> is_space (hd ?e)" by (rule hd_dropWhile)
  then have l: "\<not> is_space (last (strip s))" using e u by (simp add: last_rev)
  have d: "?d = strip s @ rev (takeWhile is_space (rev ?d))"
    unfolding strip_def by (metis rev_append rev_rev_ident takeWhile_dropWhile_id)
  with ne have "hd ?d = hd (strip s)" by (metis hd_append2)
  moreover from d ne have "?d \<noteq> []" by (metis Nil_is_append_conv)
  then have "\<not> is_space (hd ?d)" by (rule hd_dropWhile)
  ultimately show ?thesis using l by simp
qed

lemma strip_id: "r = [] \<or> (\<not> is_space (hd r) \<and> \<not> is_space (last r)) \<Longrightarrow> strip r = r"
proof (cases r)
  case Nil
  then show ?thesis by (simp add: strip_def)
next
  case (Cons x xs)
  assume "r = [] \<or> (\<not> is_space (hd r) \<and> \<not> is_space (last r))"
  with Cons have h: "\<not> is_space x" and l: "\<not> is_space (last r)" by auto
  from h Cons have "dropWhile is_space r = r" by simp
  moreover from l Cons have "dropWhile is_space (rev r) = rev r"
    by (cases "rev r") (auto simp: last_rev hd_rev [symmetric])
  ultimately show ?thesis by (simp add: strip_def)
qed

lemma clean_space_closed_form:
  "clean_space s = (if s = [] then []
                    else strip (collapse_nl (squeeze_blanks (replace_char nbsp '' '' s))))"
proof -
  have "tidy (collapse_nl (squeeze_blanks (replace_char nbsp '' '' s)))"
    by (intro collapse_tidy squeeze_spaced replace_no_nbsp)
  then show ?thesis
    by (simp add: clean_space_def re_sub_def sub_loop_blanks sub_loop_pad tidy_nl3)
qed

lemma clean_space_tidy: "tidy (clean_space s)"
  unfolding clean_space_closed_form
  by (auto intro!: tidy_strip collapse_tidy squeeze_spaced replace_no_nbsp)

lemma tidy_no_blank_line: "tidy r \<Longrightarrow> \<not> sublist [CHR 10, CHR 10] r"
proof (induction r)
  case Nil
  show ?case by simp
next
  case (Cons x xs)
  from Cons have "\<not> sublist [CHR 10, CHR 10] xs" by (auto dest: tidy_Cons)
  moreover have "\<not> prefix [CHR 10, CHR 10] (x # xs)"
    using Cons.prems nl_is_space by (cases xs) auto
  ultimately show ?case by (simp add: sublist_Cons_right)
qed

text \<open>
  C8: \<open>clean_space\<close> is idempotent.
\<close>

theorem clean_space_idempotent: "clean_space (clean_space s) = clean_space s"
proof (cases "clean_space s = []")
  case True
  then show ?thesis by (simp add: clean_space_def)
next
  case False
  let ?r = "clean_space s"
  have t: "tidy ?r" by (rule clean_space_tidy)
  from False have "s \<noteq> []" by (auto simp: clean_space_def)
  then have r: "?r = strip (collapse_nl (squeeze_blanks (replace_char nbsp '' '' s)))"
    by (simp add: clean_space_closed_form)
  with False strip_ends have e: "\<not> is_space (hd ?r) \<and> \<not> is_space (last ?r)"
    by metis
  have "clean_space ?r = strip (collapse_nl (squeeze_blanks (replace_char nbsp '' '' ?r)))"
    using False by (simp add: clean_space_closed_form)
  also have "\<dots> = strip ?r"
    using t by (simp add: replace_id tidy_no_nbsp tidy_squeeze tidy_collapse)
  also have "\<dots> = ?r" using e by (intro strip_id) simp
  finally show ?thesis .
qed

theorem clean_space_idempotent_witness:
  "clean_space (clean_space ''  a  b '') = ''a b''"
proof -
  have "clean_space ''  a  b '' = ''a b''"
    by code_simp
  with clean_space_idempotent [of "''  a  b ''"] show ?thesis by simp
qed

text \<open>
  C6: the second substitution, \<open>\s*\n\s*\<close>, takes every run of whitespace with a newline
  in it to one newline, blank lines included, so the third, \<open>\n{3,}\<close>, finds nothing to
  do: no result of \<open>clean_space\<close> has two newlines in a row, and four newlines between
  two words leave one, not the two of a single blank line.
\<close>

theorem clean_space_blank_lines_lost:
  "clean_space (''a'' @ [CHR 10, CHR 10, CHR 10, CHR 10] @ ''b'') = ''a'' @ [CHR 10] @ ''b''
   \<and> \<not> sublist [CHR 10, CHR 10] (clean_space s)"
proof
  show "clean_space (''a'' @ [CHR 10, CHR 10, CHR 10, CHR 10] @ ''b'') = ''a'' @ [CHR 10] @ ''b''"
    by code_simp
  show "\<not> sublist [CHR 10, CHR 10] (clean_space s)"
    by (intro tidy_no_blank_line clean_space_tidy)
qed

theorem clean_space_blank_lines_lost_witness:
  "\<not> sublist [CHR 10, CHR 10] (clean_space (''a'' @ [CHR 10, CHR 10, CHR 10] @ ''b''))"
  using clean_space_blank_lines_lost [of "''a'' @ [CHR 10, CHR 10, CHR 10] @ ''b''"] by blast

section \<open>Words survive \<open>clean_space\<close>\<close>

lemma words_all_space: "\<forall>c \<in> set w. is_space c \<Longrightarrow> words_acc cur w = words_acc cur []"
  by (induction w arbitrary: cur) auto

lemma words_append_space:
  "\<forall>c \<in> set w. is_space c \<Longrightarrow> words_acc cur (u @ w) = words_acc cur u"
proof (induction u arbitrary: cur)
  case Nil
  then show ?case using words_all_space [of w cur] by simp
next
  case (Cons x xs)
  then show ?case by simp
qed

lemma words_dropWhile:
  "(\<And>c. Q c \<Longrightarrow> is_space c) \<Longrightarrow> words_acc [] (dropWhile Q xs) = words_acc [] xs"
  by (induction xs) auto

lemma words_replace: "words_acc cur (replace_char nbsp '' '' s) = words_acc cur s"
proof (induction s arbitrary: cur)
  case Nil
  show ?case by (simp add: replace_char_def)
next
  case (Cons x xs)
  have r: "replace_char nbsp '' '' (x # xs)
           = (if x = nbsp then '' '' else [x]) @ replace_char nbsp '' '' xs"
    by (simp add: replace_char_def)
  have sp: "is_space nbsp" "is_space (CHR '' '')"
    by (simp_all add: is_space_def nbsp_def cp_def)
  show ?case
  proof (cases "x = nbsp")
    case True
    with r sp Cons show ?thesis by simp
  next
    case False
    with r Cons show ?thesis by simp
  qed
qed

lemma blank_is_space: "is_blank c \<Longrightarrow> is_space c"
  by (auto simp: is_blank_def is_space_def cp_def)

lemma words_squeeze: "words_acc cur (squeeze_blanks s) = words_acc cur s"
proof (induction s arbitrary: cur rule: squeeze_blanks.induct)
  case 1
  show ?case by simp
next
  case (2 x xs)
  show ?case
  proof (cases "is_blank x")
    case True
    then have sx: "is_space x" by (rule blank_is_space)
    have sp: "is_space (CHR '' '')" by (simp add: is_space_def cp_def)
    have "words_acc [] (squeeze_blanks (dropWhile is_blank xs)) = words_acc [] xs"
      using "2.IH"(1) [OF True, of "[]"] words_dropWhile [of is_blank xs] blank_is_space
      by simp
    with True sx sp show ?thesis by simp
  next
    case False
    with "2.IH"(2) show ?thesis by simp
  qed
qed

lemma words_collapse: "words_acc cur (collapse_nl s) = words_acc cur s"
proof (induction s arbitrary: cur rule: collapse_nl.induct)
  case 1
  show ?case by simp
next
  case (2 x xs)
  show ?case
  proof (cases "nl_run (x # xs)")
    case True
    then have sx: "is_space x" by (simp add: nl_run_Cons)
    have "words_acc [] (collapse_nl (dropWhile is_space xs)) = words_acc [] xs"
      using "2.IH"(1) [OF True, of "[]"] words_dropWhile [of is_space xs] by simp
    with True sx nl_is_space show ?thesis by simp
  next
    case False
    with "2.IH"(2) show ?thesis by simp
  qed
qed

lemma words_strip: "words_acc [] (strip s) = words_acc [] s"
proof -
  let ?d = "dropWhile is_space s"
  let ?w = "rev (takeWhile is_space (rev ?d))"
  have d: "?d = strip s @ ?w"
    unfolding strip_def by (metis rev_append rev_rev_ident takeWhile_dropWhile_id)
  have "\<forall>c \<in> set ?w. is_space c" by (auto dest: set_takeWhileD)
  from words_append_space [OF this, of "[]" "strip s"] d
  have "words_acc [] (strip s) = words_acc [] ?d" by simp
  also have "\<dots> = words_acc [] s" by (rule words_dropWhile) simp
  finally show ?thesis .
qed

lemma words_clean_space: "words_acc [] (clean_space s) = words_acc [] s"
  by (simp add: clean_space_closed_form words_strip words_collapse words_squeeze words_replace)

lemma sublist_words:
  assumes kw: "kw \<noteq> []" and f: "\<And>c. is_space c \<Longrightarrow> f c \<notin> set kw"
  shows "sublist kw (map f (cur @ t)) \<longleftrightarrow> (\<exists>w \<in> set (words_acc cur t). sublist kw (map f w))"
proof (induction t arbitrary: cur)
  case Nil
  with kw show ?case by simp
next
  case (Cons x xs)
  show ?case
  proof (cases "is_space x")
    case True
    from f [OF True] have disj: "set kw \<inter> set [f x] = {}" by simp
    have "sublist kw (map f (cur @ x # xs)) \<longleftrightarrow> sublist kw (map f cur @ [f x] @ map f xs)"
      by simp
    also have "\<dots> \<longleftrightarrow> sublist kw (map f cur) \<or> sublist kw (map f xs)"
      using kw disj by (intro sublist_sep) simp_all
    also have "sublist kw (map f xs) \<longleftrightarrow> (\<exists>w \<in> set (words_acc [] xs). sublist kw (map f w))"
      using Cons.IH [of "[]"] by simp
    finally show ?thesis using True kw by auto
  next
    case False
    with Cons.IH [of "cur @ [x]"] show ?thesis by simp
  qed
qed

lemma space_lower: "is_space c \<Longrightarrow> lower_char c = c"
  by (auto simp: is_space_def lower_char_def is_upper_az_def)

lemma str_in_clean_space:
  assumes "kw \<noteq> []" "\<And>c. is_space c \<Longrightarrow> c \<notin> set kw"
  shows "str_in kw (lower (clean_space s)) \<longleftrightarrow> str_in kw (lower s)"
proof -
  have f: "\<And>c. is_space c \<Longrightarrow> lower_char c \<notin> set kw"
    using assms(2) by (simp add: space_lower)
  show ?thesis
    using sublist_words [OF assms(1) f, where cur = "[]" and t = "clean_space s"]
      sublist_words [OF assms(1) f, where cur = "[]" and t = s]
    by (simp add: str_in_sublist lower_def words_clean_space)
qed

lemma no_space_in_labels:
  "is_space c \<Longrightarrow> c \<notin> set ''regra''" "is_space c \<Longrightarrow> c \<notin> set ''rv''"
  "is_space c \<Longrightarrow> c \<notin> set ''campo''" "is_space c \<Longrightarrow> c \<notin> set ''id''"
  by (auto simp: is_space_def cp_def)

section \<open>The shared alias \<open>id\<close>\<close>

lemma find_idx_from_cong:
  "(\<forall>h \<in> set hs. (\<exists>n \<in> set ns1. str_in n (lower h)) = (\<exists>n \<in> set ns2. str_in n (lower h)))
   \<Longrightarrow> find_idx_from ns1 i hs = find_idx_from ns2 i hs"
  by (induction hs arbitrary: i) auto

lemma find_idx_from_first:
  "\<exists>h \<in> set hs. \<exists>n \<in> set ns. str_in n (lower h) \<Longrightarrow>
   \<exists>j. find_idx_from ns i hs = Some (i + j) \<and> j < length hs
       \<and> (\<exists>n \<in> set ns. str_in n (lower (hs ! j)))
       \<and> (\<forall>k<j. \<not> (\<exists>n \<in> set ns. str_in n (lower (hs ! k))))"
proof (induction hs arbitrary: i)
  case Nil
  then show ?case by simp
next
  case (Cons h hs)
  show ?case
  proof (cases "\<exists>n \<in> set ns. str_in n (lower h)")
    case True
    then have "find_idx_from ns i (h # hs) = Some (i + 0)" by simp
    with True show ?thesis by (intro exI [of _ 0]) simp
  next
    case False
    with Cons.prems have "\<exists>h \<in> set hs. \<exists>n \<in> set ns. str_in n (lower h)" by auto
    from Cons.IH [OF this, of "Suc i"] obtain j where
      j: "find_idx_from ns (Suc i) hs = Some (Suc i + j)" "j < length hs"
         "\<exists>n \<in> set ns. str_in n (lower (hs ! j))"
         "\<forall>k<j. \<not> (\<exists>n \<in> set ns. str_in n (lower (hs ! k)))"
      by blast
    have "\<forall>k<Suc j. \<not> (\<exists>n \<in> set ns. str_in n (lower ((h # hs) ! k)))"
      using j(4) False by (auto simp: less_Suc_eq_0_disj)
    with j False show ?thesis
      by (intro exI [of _ "Suc j"]) simp
  qed
qed

lemma lower_lit [simp]:
  "lower ''regra'' = ''regra''" "lower ''rv'' = ''rv''" "lower ''id'' = ''id''"
  "lower ''campo'' = ''campo''"
  by (simp_all add: lower_def lower_char_def is_upper_az_def cp_def)

lemma make_row_same_idx:
  "make_row header r = Inr rw \<Longrightarrow> idx_campo header = idx_regra header \<Longrightarrow>
   dict_get rw ''campo'' = dict_get rw ''regra''"
  by (auto simp: make_row_def Let_def ebind_Inr_iff dict_get_def)

lemma id_alias_on_header:
  assumes hdr: "find_header (take 3 tbl) = Some header"
    and no: "\<forall>h \<in> set header. \<not> str_in ''regra'' (lower h) \<and> \<not> str_in ''rv'' (lower h)
                                 \<and> \<not> str_in ''campo'' (lower h)"
    and id: "\<exists>h \<in> set header. str_in ''id'' (lower h)"
    and step: "table_step out tbl = Inr out'"
  shows "\<exists>i. idx_regra header = Some i \<and> idx_campo header = Some i \<and> i < length header
             \<and> str_in ''id'' (lower (header ! i))
             \<and> (\<forall>j<i. \<not> str_in ''id'' (lower (header ! j)))
             \<and> (\<exists>new. out' = out @ new
                      \<and> (\<forall>r \<in> set new. dict_get r ''campo'' = dict_get r ''regra''))"
proof -
  have r: "idx_regra header = find_idx_from [''id''] 0 header"
    unfolding idx_regra_def find_idx_def using no
    by (intro find_idx_from_cong) auto
  have c: "idx_campo header = find_idx_from [''id''] 0 header"
    unfolding idx_campo_def find_idx_def using no
    by (intro find_idx_from_cong) auto
  from id have "\<exists>h \<in> set header. \<exists>n \<in> set [''id'']. str_in n (lower h)" by simp
  from find_idx_from_first [OF this, of 0] obtain i where
    i: "find_idx_from [''id''] 0 header = Some i" "i < length header"
       "str_in ''id'' (lower (header ! i))" "\<forall>j<i. \<not> str_in ''id'' (lower (header ! j))"
    by auto
  have "\<exists>new. out' = out @ new \<and> (\<forall>r \<in> set new. dict_get r ''campo'' = dict_get r ''regra'')"
  proof (cases "tbl = [] \<or> length tbl < 2")
    case True
    with step have "out' = out @ []" by (simp add: table_step_def)
    then show ?thesis by (intro exI [of _ "[]"]) simp
  next
    case False
    from id have "header \<noteq> []" by auto
    with False step hdr have "rows_loop header out (drop 1 tbl) = Inr out'"
      by (simp add: table_step_def)
    from rows_loop_keeps [OF this] obtain new where
      new: "out' = out @ new" "\<forall>r \<in> set new. \<exists>rw \<in> set (drop 1 tbl). make_row header rw = Inr r"
      by blast
    have "\<forall>r \<in> set new. dict_get r ''campo'' = dict_get r ''regra''"
      using new(2) make_row_same_idx r c by metis
    with new(1) show ?thesis by blast
  qed
  with r c i show ?thesis by auto
qed

lemma find_header_row:
  "find_header rows = map_option (map (\<lambda>c. clean_space (or_empty c))) (header_row rows)"
  by (induction rows) auto

text \<open>
  C10: when no cell of the identified header row contains, lowercased, \<open>regra\<close>, \<open>rv\<close>
  or \<open>campo\<close> and some cell contains \<open>id\<close>, rule-id and field-code are both mapped to
  the first cell with \<open>id\<close>, and every record the table adds has its field-code equal to
  its rule-id.
\<close>

theorem id_alias_collision:
  assumes hrow: "header_row (take 3 tbl) = Some r"
    and no: "\<forall>c \<in> set r. \<not> str_in ''regra'' (lower (or_empty c))
                            \<and> \<not> str_in ''rv'' (lower (or_empty c))
                            \<and> \<not> str_in ''campo'' (lower (or_empty c))"
    and id: "\<exists>c \<in> set r. str_in ''id'' (lower (or_empty c))"
    and step: "table_step out tbl = Inr out'"
  shows "\<exists>i. idx_regra (map (\<lambda>c. clean_space (or_empty c)) r) = Some i
             \<and> idx_campo (map (\<lambda>c. clean_space (or_empty c)) r) = Some i
             \<and> i < length r
             \<and> str_in ''id'' (lower (or_empty (r ! i)))
             \<and> (\<forall>j<i. \<not> str_in ''id'' (lower (or_empty (r ! j))))
             \<and> (\<exists>new. out' = out @ new
                      \<and> (\<forall>x \<in> set new. dict_get x ''campo'' = dict_get x ''regra''))"
proof -
  let ?h = "map (\<lambda>c. clean_space (or_empty c)) r"
  have k: "str_in kw (lower (clean_space s)) = str_in kw (lower s)"
    if "kw = ''regra'' \<or> kw = ''rv'' \<or> kw = ''campo'' \<or> kw = ''id''" for kw s
    using that no_space_in_labels by (intro str_in_clean_space) auto
  have h1: "find_header (take 3 tbl) = Some ?h"
    using hrow by (simp add: find_header_row)
  have h2: "\<forall>h \<in> set ?h. \<not> str_in ''regra'' (lower h) \<and> \<not> str_in ''rv'' (lower h)
                           \<and> \<not> str_in ''campo'' (lower h)"
    using no by (simp add: k)
  have h3: "\<exists>h \<in> set ?h. str_in ''id'' (lower h)"
    using id by (simp add: k)
  from id_alias_on_header [OF h1 h2 h3 step] obtain i where
    i: "idx_regra ?h = Some i" "idx_campo ?h = Some i" "i < length ?h"
       "str_in ''id'' (lower (?h ! i))" "\<forall>j<i. \<not> str_in ''id'' (lower (?h ! j))"
       "\<exists>new. out' = out @ new \<and> (\<forall>x \<in> set new. dict_get x ''campo'' = dict_get x ''regra'')"
    by blast
  from i(3) have l: "i < length r" by simp
  with i(4) have a: "str_in ''id'' (lower (or_empty (r ! i)))" by (simp add: k)
  have b: "\<forall>j<i. \<not> str_in ''id'' (lower (or_empty (r ! j)))"
  proof (intro allI impI)
    fix j assume "j < i"
    with l i(5) have "\<not> str_in ''id'' (lower (?h ! j))" "j < length r" by auto
    then show "\<not> str_in ''id'' (lower (or_empty (r ! j)))" by (simp add: k)
  qed
  from i(1,2,6) l a b show ?thesis by blast
qed

theorem id_alias_collision_witness:
  "header_row (take 3 id_table) = Some [Some ''ID'', Some ''Aplic.'', Some ''Msg'', Some ''Descricao'']
   \<and> table_step [] id_table
       = Inr [[(''campo'', ''X1''), (''regra'', ''X1''), (''aplic'', ''Obrig.''),
               (''msg'', ''656''), (''descricao'', ''Campo invalido'')]]
   \<and> idx_regra [''ID'', ''Aplic.'', ''Msg'', ''Descricao''] = Some 0
   \<and> idx_campo [''ID'', ''Aplic.'', ''Msg'', ''Descricao''] = Some 0"
proof -
  let ?r = "[Some ''ID'', Some ''Aplic.'', Some ''Msg'', Some ''Descricao'']"
  have h1: "header_row (take 3 id_table) = Some ?r"
    by code_simp
  have h2: "\<forall>c \<in> set ?r. \<not> str_in ''regra'' (lower (or_empty c))
                           \<and> \<not> str_in ''rv'' (lower (or_empty c))
                           \<and> \<not> str_in ''campo'' (lower (or_empty c))"
    by code_simp
  have h3: "\<exists>c \<in> set ?r. str_in ''id'' (lower (or_empty c))"
    by code_simp
  have h4: "table_step [] id_table
       = Inr [[(''campo'', ''X1''), (''regra'', ''X1''), (''aplic'', ''Obrig.''),
               (''msg'', ''656''), (''descricao'', ''Campo invalido'')]]"
    by code_simp
  have h5: "str_in ''id'' (lower (or_empty (?r ! 0)))"
    by code_simp
  have h6: "map (\<lambda>c. clean_space (or_empty c)) ?r = [''ID'', ''Aplic.'', ''Msg'', ''Descricao'']"
    by code_simp
  from id_alias_collision [OF h1 h2 h3 h4] obtain i where
    i: "idx_regra (map (\<lambda>c. clean_space (or_empty c)) ?r) = Some i"
       "idx_campo (map (\<lambda>c. clean_space (or_empty c)) ?r) = Some i"
       "\<forall>j<i. \<not> str_in ''id'' (lower (or_empty (?r ! j)))"
    by blast
  from i(3) h5 have "i = 0" by (cases i) auto
  with i(1,2) h1 h4 show ?thesis unfolding h6 by simp
qed

section \<open>Version and schedule\<close>

lemma candidatas_loop_labels: "candidatas_loop acc lns = acc @ version_labels lns"
  by (induction lns arbitrary: acc)
     (auto simp: version_labels_def List.map_filter_simps split: option.splits)

lemma nth_last_1: "xs \<noteq> [] \<Longrightarrow> xs ! (length xs - 1) = last xs"
  by (simp add: last_conv_nth)

lemma nth_last_2: "2 \<le> length xs \<Longrightarrow> xs ! (length xs - 2) = last (butlast xs)"
proof -
  assume len: "2 \<le> length xs"
  then have "butlast xs \<noteq> []" by (cases xs rule: rev_cases) auto
  then have "last (butlast xs) = butlast xs ! (length (butlast xs) - 1)"
    by (simp add: last_conv_nth)
  also have "\<dots> = xs ! (length xs - 2)"
    using len by (simp add: nth_butlast numeral_2_eq_2)
  finally show ?thesis by simp
qed

lemma take_window: "take (Suc n) (splitlines tail) = header_window n tail"
  by (cases "splitlines tail") (simp_all add: header_window_def lines_following_def)

text \<open>
  C7, as the claim states it, fails: the lines the code reads are the first 120 lines of
  the text after the header, and the first of them is what is left of the header's own
  line. With the header on a line of its own, 119 other lines after it and a version line
  as the 120th line following the header, the version line is outside the code's window
  and the version is unset, where the claim takes the label of that line. And a version
  line that stands on the header's own line, after the header, is taken by the code,
  where no line following the header has a label.
\<close>

theorem version_on_120th_line_missed:
  "fst (extract_versions_block late_version_text) = None
   \<and> version_scan late_version_text = Some ''1.20''
   \<and> fst (extract_versions_block inline_version_text) = Some ''1.20''
   \<and> version_scan inline_version_text = None"
  by code_simp

text \<open>
  C7, amended: the version is the last label of a version line among what is left of the
  line of the first \<open>Controle de Vers\xf5es\<close> header and the 119 lines following it (unset
  without a header or a matching line); staging and production are the last but one and
  the last of the dates among what is left of the line of the first
  \<open>Hist\xf3rico de Altera\xe7\xf5es / Cronograma\<close> header and the 249 lines following it when
  there are at least two, and unset otherwise; each scan reads the text alone.
\<close>

theorem extract_versions_block_windows:
  "extract_versions_block text =
     (version_scan_amended text, fst (schedule_scan_amended text),
      snd (schedule_scan_amended text))"
proof -
  have w120: "take 120 (splitlines tail) = header_window 119 tail" for tail
    using take_window [of 119 tail] by simp
  have w250: "take 250 (splitlines tail) = header_window 249 tail" for tail
    using take_window [of 249 tail] by simp
  have v: "(let candidatas = candidatas_loop [] lns
            in if candidatas \<noteq> [] then Some (candidatas ! (length candidatas - 1)) else None)
           = (case version_labels lns of [] \<Rightarrow> None | l # ls \<Rightarrow> Some (last (l # ls)))" for lns
    using nth_last_1 [of "version_labels lns"]
    by (simp add: Let_def candidatas_loop_labels split: list.splits)
  have d: "(if 2 \<le> length ds then (Some (ds ! (length ds - 2)), Some (ds ! (length ds - 1)))
            else (None, None))
           = (if 2 \<le> length ds then (Some (last (butlast ds)), Some (last ds))
              else (None, None))" for ds :: "string list"
  proof (cases "2 \<le> length ds")
    case True
    then have "ds \<noteq> []" by auto
    then have a: "ds ! (length ds - 1) = last ds" by (rule nth_last_1)
    from True have b: "ds ! (length ds - 2) = last (butlast ds)" by (rule nth_last_2)
    show ?thesis by (simp only: a b)
  next
    case False
    then show ?thesis by simp
  qed
  show ?thesis
    unfolding extract_versions_block_def version_scan_amended_def schedule_scan_amended_def
      v w120 w250
    by (simp add: Let_def d split: option.splits prod.splits)
qed

theorem extract_versions_block_windows_witness:
  "extract_versions_block ex_text = (Some ''1.20'', Some ''15/06/2025'', Some ''01/07/2025'')
   \<and> extract_versions_block inline_version_text = (Some ''1.20'', None, None)
   \<and> extract_versions_block late_version_text = (None, None, None)"
proof -
  have "version_scan_amended ex_text = Some ''1.20''"
    by code_simp
  moreover have "schedule_scan_amended ex_text = (Some ''15/06/2025'', Some ''01/07/2025'')"
    by code_simp
  moreover have "version_scan_amended inline_version_text = Some ''1.20''"
    by code_simp
  moreover have "schedule_scan_amended inline_version_text = (None, None)"
    by code_simp
  moreover have "version_scan_amended late_version_text = None"
    by code_simp
  moreover have "schedule_scan_amended late_version_text = (None, None)"
    by code_simp
  ultimately show ?thesis
    using extract_versions_block_windows [of ex_text]
      extract_versions_block_windows [of inline_version_text]
      extract_versions_block_windows [of late_version_text]
    by simp
qed

section \<open>Orchestration\<close>

text \<open>
  C2: the records of a document are those of the table path when it gives any, and those
  of the text path otherwise. Without records the result is one row with the title, the
  publication date and the version information, every rule field \<open>None\<close>; with \<open>N\<close>
  records it is \<open>N\<close> rows, all with the same title, version and dates.
\<close>

theorem extract_rules_shape:
  "rvs p = (if table_rvs p \<noteq> [] then table_rvs p else parse_rv_text (pdf_text p))
   \<and> (rvs p = [] \<longrightarrow>
        extract_rules_from_pdf p titulo publicada =
          [\<lparr>nt_titulo = titulo, nt_versao = fst (extract_versions_block (pdf_text p)),
            publicada_em = publicada,
            implantacao_homolog = fst (snd (extract_versions_block (pdf_text p))),
            implantacao_producao = snd (snd (extract_versions_block (pdf_text p))),
            grupo = None, campo = None, regra = None, aplic = None, msg = None,
            descricao = None\<rparr>])
   \<and> (rvs p \<noteq> [] \<longrightarrow>
        length (extract_rules_from_pdf p titulo publicada) = length (rvs p)
        \<and> (\<forall>r \<in> set (extract_rules_from_pdf p titulo publicada).
              nt_titulo r = titulo
              \<and> nt_versao r = fst (extract_versions_block (pdf_text p))
              \<and> publicada_em r = publicada
              \<and> implantacao_homolog r = fst (snd (extract_versions_block (pdf_text p)))
              \<and> implantacao_producao r = snd (snd (extract_versions_block (pdf_text p)))))"
proof (intro conjI impI)
  show "rvs p = (if table_rvs p \<noteq> [] then table_rvs p else parse_rv_text (pdf_text p))"
    by (simp add: rvs_def text_rvs_def)
next
  assume "rvs p = []"
  then show "extract_rules_from_pdf p titulo publicada =
          [\<lparr>nt_titulo = titulo, nt_versao = fst (extract_versions_block (pdf_text p)),
            publicada_em = publicada,
            implantacao_homolog = fst (snd (extract_versions_block (pdf_text p))),
            implantacao_producao = snd (snd (extract_versions_block (pdf_text p))),
            grupo = None, campo = None, regra = None, aplic = None, msg = None,
            descricao = None\<rparr>]"
    by (simp add: extract_rules_from_pdf_def split: prod.splits)
next
  assume "rvs p \<noteq> []"
  then show "length (extract_rules_from_pdf p titulo publicada) = length (rvs p)"
    by (simp add: extract_rules_from_pdf_def split: prod.splits)
next
  assume "rvs p \<noteq> []"
  then show "\<forall>r \<in> set (extract_rules_from_pdf p titulo publicada).
              nt_titulo r = titulo
              \<and> nt_versao r = fst (extract_versions_block (pdf_text p))
              \<and> publicada_em r = publicada
              \<and> implantacao_homolog r = fst (snd (extract_versions_block (pdf_text p)))
              \<and> implantacao_producao r = snd (snd (extract_versions_block (pdf_text p)))"
    by (cases "extract_versions_block (pdf_text p)")
       (auto simp: extract_rules_from_pdf_def)
qed

theorem extract_rules_shape_witness:
  "rvs ex_pdf = [ex_rule] \<and> length (extract_rules_from_pdf ex_pdf ''NT 2025.001'' None) = 1
   \<and> rvs unreadable_pdf = []
   \<and> extract_rules_from_pdf unreadable_pdf ''NT 2025.001'' (Some ''01/02/2025'') =
       [\<lparr>nt_titulo = ''NT 2025.001'', nt_versao = None, publicada_em = Some ''01/02/2025'',
         implantacao_homolog = None, implantacao_producao = None,
         grupo = None, campo = None, regra = None, aplic = None, msg = None,
         descricao = None\<rparr>]"
proof -
  have a: "rvs ex_pdf = [ex_rule]"
    by code_simp
  have b: "rvs unreadable_pdf = []"
    by code_simp
  have c: "extract_versions_block (pdf_text unreadable_pdf) = (None, None, None)"
    by code_simp
  from extract_rules_shape [of ex_pdf "''NT 2025.001''" None] a
  have "length (extract_rules_from_pdf ex_pdf ''NT 2025.001'' None) = 1" by simp
  moreover from extract_rules_shape [of unreadable_pdf "''NT 2025.001''" "Some ''01/02/2025''"] b c
  have "extract_rules_from_pdf unreadable_pdf ''NT 2025.001'' (Some ''01/02/2025'') =
       [\<lparr>nt_titulo = ''NT 2025.001'', nt_versao = None, publicada_em = Some ''01/02/2025'',
         implantacao_homolog = None, implantacao_producao = None,
         grupo = None, campo = None, regra = None, aplic = None, msg = None,
         descricao = None\<rparr>]" by simp
  ultimately show ?thesis using a b by simp
qed

section \<open>The text path\<close>

lemma ms_keeps_group:
  "(p', r', g') \<in> set (ms a (p, r, g)) \<Longrightarrow> n \<notin> grps a \<Longrightarrow> map_of g' n = map_of g n"
proof (induction a arbitrary: p r g p' r' g')
  case (Chr P)
  then show ?case by (auto split: list.splits if_splits)
next
  case (Rep P lo hi)
  then show ?case by auto
next
  case (Cat a b)
  from Cat.prems(1) obtain m where m: "m \<in> set (ms a (p, r, g))" "(p', r', g') \<in> set (ms b m)"
    by auto
  obtain p1 r1 g1 where m1: "m = (p1, r1, g1)" by (cases m)
  from Cat.IH(1) [of p1 r1 g1 p r g] m(1) m1 Cat.prems(2) have "map_of g1 n = map_of g n" by simp
  moreover from Cat.IH(2) [of p' r' g' p1 r1 g1] m(2) m1 Cat.prems(2)
  have "map_of g' n = map_of g1 n" by simp
  ultimately show ?case by simp
next
  case (Alt a b)
  then show ?case by auto
next
  case (Grp k a)
  from Grp.prems(1) obtain g1 where
    g1: "(p', r', g1) \<in> set (ms a (p, r, g))" "g' = (k, take (length r - length r') r) # g1"
    by auto
  from Grp.IH [OF g1(1)] Grp.prems(2) have "map_of g1 n = map_of g n" by simp
  with g1(2) Grp.prems(2) show ?case by simp
next
  case Bos
  then show ?case by (auto split: if_splits)
next
  case Eos
  then show ?case by (auto split: if_splits)
next
  case Wb
  then show ?case by (auto split: if_splits)
qed

lemma rep_none: "rep P 0 (Some 0) p r = [(p, r)]"
  by (cases r) auto

lemma concat_singletons: "concat (map (\<lambda>m. [m]) xs) = xs"
  by (induction xs) auto

lemma ms_cats_Nil: "ms (cats []) = (\<lambda>m. [m])"
proof
  fix m :: mstate
  show "ms (cats []) m = [m]" by (cases m) (simp add: rep_none)
qed

lemma ms_cats_Cons: "ms (cats (a # rs)) st = concat (map (ms (cats rs)) (ms a st))"
proof (cases rs)
  case Nil
  show ?thesis unfolding Nil ms_cats_Nil concat_singletons by simp
next
  case (Cons b bs)
  then show ?thesis by simp
qed

lemma ms_cats_append:
  "st' \<in> set (ms (cats (as @ bs)) st) \<Longrightarrow> \<exists>m \<in> set (ms (cats as) st). st' \<in> set (ms (cats bs) m)"
proof (induction as arbitrary: st)
  case Nil
  have "ms (cats []) st = [st]" by (cases st) (simp add: rep_none)
  with Nil show ?case by simp
next
  case (Cons a as)
  from Cons.prems obtain m1 where m1: "m1 \<in> set (ms a st)" "st' \<in> set (ms (cats (as @ bs)) m1)"
    by (auto simp: ms_cats_Cons)
  from Cons.IH [OF m1(2)] obtain m where "m \<in> set (ms (cats as) m1)" "st' \<in> set (ms (cats bs) m)"
    by blast
  with m1(1) show ?case by (auto simp: ms_cats_Cons)
qed

lemma lower_char_cases:
  "lower_char x = y \<Longrightarrow> x = y \<or> (cp x + 32 = cp y \<and> cp x \<le> 222)"
proof (cases "is_upper_az x \<or> (192 \<le> cp x \<and> cp x \<le> 222 \<and> cp x \<noteq> 215)")
  case True
  assume "lower_char x = y"
  moreover from True have "lower_char x = char_of (cp x + 32)"
    unfolding lower_char_def by (rule if_P)
  ultimately have "y = char_of (cp x + 32)" by simp
  then have "cp y = (cp x + 32) mod 256" by (simp add: cp_def)
  moreover from True have "cp x \<le> 222" by (auto simp: is_upper_az_def)
  ultimately show ?thesis by simp
next
  case False
  then have "lower_char x = x" unfolding lower_char_def by (rule if_not_P)
  moreover assume "lower_char x = y"
  ultimately show ?thesis by simp
qed

lemma cp_inj: "cp x = cp y \<Longrightarrow> x = y"
  by (simp add: cp_def)

lemma lower_char_c: "lower_char x = CHR ''c'' \<Longrightarrow> x = CHR ''c'' \<or> x = CHR ''C''"
proof -
  assume "lower_char x = CHR ''c''"
  from lower_char_cases [OF this] show ?thesis
  proof
    assume "x = CHR ''c''" then show ?thesis by simp
  next
    assume "cp x + 32 = cp (CHR ''c'') \<and> cp x \<le> 222"
    then have "cp x = cp (CHR ''C'')" by (simp add: cp_def)
    then show ?thesis by (auto dest: cp_inj)
  qed
qed

lemma lower_char_cedil: "lower_char x = c_cedil \<Longrightarrow> x = c_cedil \<or> x = CHR 0xC7"
proof -
  assume "lower_char x = c_cedil"
  from lower_char_cases [OF this] show ?thesis
  proof
    assume "x = c_cedil" then show ?thesis by simp
  next
    assume "cp x + 32 = cp c_cedil \<and> cp x \<le> 222"
    then have "cp x = cp (CHR 0xC7)" by (simp add: cp_def c_cedil_def)
    then show ?thesis by (auto dest: cp_inj)
  qed
qed

lemma lower_fix: "lower_char c_cedil = c_cedil" "lower_char (CHR ''c'') = CHR ''c''"
  by (simp_all add: lower_char_def c_cedil_def is_upper_az_def cp_def)

lemma cedil_group_capture:
  "(p', r', g') \<in> set (ms cedil_group (p, r, g)) \<Longrightarrow>
     \<exists>x. map_of g' 1 = Some [x] \<and> (x = c_cedil \<or> x = CHR 0xC7 \<or> x = CHR ''c'' \<or> x = CHR ''C'')"
  by (cases r)
     (auto simp: cedil_group_def liti_def lower_fix split: if_splits
           dest: lower_char_c lower_char_cedil)

lemma rv_section_split:
  "RV_SECTION_RE =
     cats ([Bos, star is_space, lit (CHR ''7''), lit (CHR ''.''), star is_space,
            stri ''Regras'', plus is_space, stri ''de'', plus is_space, stri ''Valida'']
           @ [cedil_group, Grp 2 (Alt (stri (a_tilde # ''o'')) (stri ''ao'')), star is_space])"
  by (simp add: RV_SECTION_RE_def cedil_group_def)

lemma rv_section_capture:
  assumes "(p', r', g') \<in> set (ms RV_SECTION_RE (p, r, []))"
  shows "\<exists>x. map_of g' 1 = Some [x]
             \<and> (x = c_cedil \<or> x = CHR 0xC7 \<or> x = CHR ''c'' \<or> x = CHR ''C'')"
proof -
  let ?post = "cats [Grp 2 (Alt (stri (a_tilde # ''o'')) (stri ''ao'')), star is_space]"
  from assms obtain m where
    m: "(p', r', g') \<in> set (ms (cats [cedil_group, Grp 2 (Alt (stri (a_tilde # ''o'')) (stri ''ao'')),
                                       star is_space]) m)"
    unfolding rv_section_split by (blast dest: ms_cats_append)
  then obtain m1 where m1: "m1 \<in> set (ms cedil_group m)" "(p', r', g') \<in> set (ms ?post m1)"
    by (auto simp: ms_cats_Cons)
  obtain p0 r0 g0 where m0: "m = (p0, r0, g0)" by (cases m)
  obtain p1 r1 g1 where m1': "m1 = (p1, r1, g1)" by (cases m1)
  from cedil_group_capture m1(1) m0 m1' obtain x where
    x: "map_of g1 1 = Some [x]" "x = c_cedil \<or> x = CHR 0xC7 \<or> x = CHR ''c'' \<or> x = CHR ''C''"
    by blast
  have "1 \<notin> grps ?post"
    by (simp add: stri_def liti_def star_def)
  from ms_keeps_group [OF _ this] m1(2) m1' have "map_of g' 1 = map_of g1 1" by blast
  with x show ?thesis by auto
qed

lemma rv_section_not_start: "ms RV_SECTION_RE (Some c, r, g) = []"
  by (simp add: RV_SECTION_RE_def)

lemma split_loop_later:
  "length (split_loop RV_SECTION_RE ng left cur (Some c) rest) = 1"
proof (induction rest arbitrary: cur c)
  case Nil
  show ?case
    by (subst split_loop.simps) (simp add: match_here_Nil)
next
  case (Cons x xs)
  have "match_here RV_SECTION_RE (Some c) (x # xs) = None"
    by (simp add: match_here_def rv_section_not_start)
  with Cons show ?case
    by (subst split_loop.simps) simp
qed

lemma split_para_single: "x \<noteq> CHR 10 \<Longrightarrow> re_split PARA_RE 0 0 [x] = [Some [x]]"
proof -
  assume x: "x \<noteq> CHR 10"
  have a: "split_loop PARA_RE 0 None [x] (Some x) [] = [Some [x]]"
    by (subst split_loop.simps) (simp add: match_here_Nil)
  have "match_here PARA_RE None [x] = None"
    using x by (simp add: match_here_def PARA_RE_def is_nl_def)
  then have "split_loop PARA_RE 0 None [] None [x] = split_loop PARA_RE 0 None [x] (Some x) []"
    by (subst split_loop.simps) simp
  with a show ?thesis by (simp add: re_split_def)
qed

lemma single_letter_paragraph:
  "x = c_cedil \<or> x = CHR 0xC7 \<or> x = CHR ''c'' \<or> x = CHR ''C'' \<Longrightarrow> paras_loop [] [[x]] = []"
proof -
  have "paras_loop [] [[c_cedil]] = []" by code_simp
  moreover have "paras_loop [] [[CHR 0xC7]] = []" by code_simp
  moreover have "paras_loop [] [''c''] = []" by code_simp
  moreover have "paras_loop [] [''C''] = []" by code_simp
  moreover assume "x = c_cedil \<or> x = CHR 0xC7 \<or> x = CHR ''c'' \<or> x = CHR ''C''"
  ultimately show ?thesis by auto
qed

lemma parse_rv_text_empty: "parse_rv_text text = []"
proof (cases "text")
  case Nil
  then show ?thesis by (simp add: parse_rv_text_def)
next
  case (Cons t ts)
  show ?thesis
  proof (cases "match_here RV_SECTION_RE None text")
    case None
    then have "re_split RV_SECTION_RE 2 1 text
               = split_loop RV_SECTION_RE 2 (Some 1) [t] (Some t) ts"
      unfolding re_split_def using Cons by (subst split_loop.simps) simp
    then have "length (re_split RV_SECTION_RE 2 1 text) = 1"
      by (simp add: split_loop_later)
    then show ?thesis by (simp add: parse_rv_text_def Let_def)
  next
    case (Some m)
    obtain p r g where m: "m = (p, r, g)" by (cases m)
    from Some m have "(p, r, g) \<in> set (ms RV_SECTION_RE (None, text, []))"
      by (auto simp: match_here_def split: list.splits if_splits)
    from rv_section_capture [OF this] obtain x where
      x: "map_of g 1 = Some [x]" "x = c_cedil \<or> x = CHR 0xC7 \<or> x = CHR ''c'' \<or> x = CHR ''C''"
      by blast
    from Some m have "re_split RV_SECTION_RE 2 1 text
        = Some [] # map (map_of g) [1..<Suc 2] @ split_loop RV_SECTION_RE 2 (Some 0) [] p r"
      unfolding re_split_def by (subst split_loop.simps) simp
    with x(1) have s1: "re_split RV_SECTION_RE 2 1 text ! 1 = Some [x]"
      and s2: "\<not> length (re_split RV_SECTION_RE 2 1 text) < 2"
      by (simp_all add: upt_rec)
    from x(2) have "x \<noteq> CHR 10" by (auto simp: c_cedil_def)
    with s1 s2 Cons have "parse_rv_text text = paras_loop [] [[x]]"
      by (simp add: parse_rv_text_def Let_def or_empty_def split_para_single
            del: paras_loop.simps)
    with single_letter_paragraph [OF x(2)] show ?thesis by simp
  qed
qed

text \<open>
  C1: \<open>RV_SECTION_RE\<close> is compiled without \<open>re.M\<close>, so its \<open>^\<close> is the start of the
  text and a header on a later line is not found; and \<open>split\<close> returns the groups of the
  pattern between the pieces, so \<open>sec[1]\<close> is the letter the first group matched, not
  the text after the header. The paragraph loop runs on that one letter and the parser
  returns no record for any text, also where the text after the header is a paragraph
  that the loop body turns into a record.
\<close>

theorem text_path_yields_nothing:
  "parse_rv_text text = []
   \<and> re_split RV_SECTION_RE 2 1 ex_section_text
       = [Some [], Some [c_cedil], Some (a_tilde # ''o''), Some ''B09-20 656 Campo invalido'']
   \<and> para_step ''B09-20 656 Campo invalido''
       = Some [(''campo'', ''B09''), (''regra'', ''B09-20''), (''aplic'', []),
               (''msg'', ''656''), (''descricao'', ''B09-20 656 Campo invalido'')]
   \<and> length (re_split RV_SECTION_RE 2 1 (''Sumario'' @ [CHR 10] @ ex_section_text)) = 1"
proof -
  have "re_split RV_SECTION_RE 2 1 ex_section_text
       = [Some [], Some [c_cedil], Some (a_tilde # ''o''), Some ''B09-20 656 Campo invalido'']"
    by code_simp
  moreover have "para_step ''B09-20 656 Campo invalido''
       = Some [(''campo'', ''B09''), (''regra'', ''B09-20''), (''aplic'', []),
               (''msg'', ''656''), (''descricao'', ''B09-20 656 Campo invalido'')]"
    by code_simp
  moreover have "length (re_split RV_SECTION_RE 2 1 (''Sumario'' @ [CHR 10] @ ex_section_text)) = 1"
    by code_simp
  ultimately show ?thesis using parse_rv_text_empty by simp
qed

theorem text_path_yields_nothing_witness:
  "parse_rv_text ex_section_text = []"
  using text_path_yields_nothing [of ex_section_text] by blast

text \<open>
  C5: the pattern for the applicability token is \<open>\bObrig\.\b\<close>. After the full stop
  \<open>\b\<close> asks for a word character, so the token followed by a space, or at the end of
  the paragraph, is not detected: the paragraph below contains \<open>Obrig.\<close>, its
  applicability stays unset, and the record it gives has an empty \<open>aplic\<close>.
\<close>

theorem obrig_token_not_detected:
  "str_in ''Obrig.'' ''Obrig. 656 Campo invalido''
   \<and> aplic_of ''Obrig. 656 Campo invalido'' = None
   \<and> para_step ''Obrig. 656 Campo invalido''
       = Some [(''campo'', []), (''regra'', []), (''aplic'', []), (''msg'', ''656''),
               (''descricao'', ''656 Campo invalido'')]"
  by code_simp

theorem obrig_token_not_detected_witness:
  "aplic_of ''Obrig. 656 Campo invalido'' = None"
  using obrig_token_not_detected by blast

end
